theory Spec2Isabelle
  imports Complex_Main "HOL-Library.Word"
begin

section \<open>Pixel buffers\<close>

text \<open>
  The module \<^verbatim>\<open>src/utils/backgroundRemoval.ts\<close> works on the browser's
  \<^verbatim>\<open>ImageData\<close>: a \<^verbatim>\<open>Uint8ClampedArray\<close> of RGBA bytes in row-major order
  with a width and a height. A byte is an \<open>8 word\<close>; a value read from the array is a
  JavaScript number, modelled by \<open>uint\<close> (an \<open>int\<close>) where the code does integer
  arithmetic on it and by a \<open>real\<close> where the code uses \<^verbatim>\<open>Math.sqrt\<close>,
  \<^verbatim>\<open>Math.exp\<close> or a division (IEEE doubles are idealised as reals there).
\<close>

type_synonym byte = "8 word"

record ImageData =
  data :: "byte list"
  width :: nat
  height :: nat

text \<open>
  The \<^verbatim>\<open>ImageData\<close> constructor and \<^verbatim>\<open>getImageData\<close> refuse a zero width or
  height and a data length other than \<open>4 * width * height\<close>, so every buffer the
  filters receive satisfies \<open>valid_image\<close>.
\<close>

definition valid_image :: "ImageData \<Rightarrow> bool" where
  "valid_image img \<longleftrightarrow>
     0 < width img \<and> 0 < height img \<and> length (data img) = width img * height img * 4"

text \<open>
  Storing a number into a \<^verbatim>\<open>Uint8ClampedArray\<close> clamps it to \<open>[0, 255]\<close> and rounds
  it to the nearest integer, ties to even. \<open>clamp_store_int\<close> is the store of an
  integral number, \<open>clamp_store\<close> the store of an arbitrary (finite) one.
\<close>

definition clamp_store_int :: "int \<Rightarrow> byte" where
  "clamp_store_int n = word_of_int (max 0 (min 255 n))"

definition clamp_store :: "real \<Rightarrow> byte" where
  "clamp_store v =
     (if v \<le> 0 then 0
      else if 255 \<le> v then 255
      else let f = \<lfloor>v\<rfloor> in
        if v - of_int f < 1 / 2 then word_of_int f
        else if 1 / 2 < v - of_int f then word_of_int (f + 1)
        else if even f then word_of_int f else word_of_int (f + 1))"

text \<open>
  The index of the first sample of the pixel in column \<open>x\<close> of row \<open>y\<close>; the
  alpha sample is three further on. \<open>interior\<close> is the range of the loops
  \<^verbatim>\<open>for (y = 1; y < height - 1; y++) for (x = 1; x < width - 1; x++)\<close>.
\<close>

definition pixelIndex :: "nat \<Rightarrow> nat \<Rightarrow> nat \<Rightarrow> nat" where
  "pixelIndex w y x = (y * w + x) * 4"

definition interior :: "nat \<Rightarrow> nat \<Rightarrow> nat \<Rightarrow> nat \<Rightarrow> bool" where
  "interior w h x y \<longleftrightarrow> 1 \<le> x \<and> x < w - 1 \<and> 1 \<le> y \<and> y < h - 1"

text \<open>The loop \<^verbatim>\<open>for (i = 0; i < length; i += 4)\<close> visits these indices.\<close>

definition quads :: "nat \<Rightarrow> nat list" where
  "quads n = map (\<lambda>k. 4 * k) [0..<(n + 3) div 4]"

section \<open>Morphological opening\<close>

text \<open>
  \<^verbatim>\<open>morphologicalOperations\<close>: a fresh zeroed array receives the RGB samples of the
  input; the erosion loop writes the minimum alpha of the 3x3 window for the interior
  pixels; a copy of that array receives the maximum of the eroded alpha for the interior
  pixels.
\<close>

definition kernel :: "nat list list" where
  "kernel = [[1, 1, 1], [1, 1, 1], [1, 1, 1]]"

definition copy_rgb :: "byte list \<Rightarrow> nat \<Rightarrow> byte list \<Rightarrow> byte list" where
  "copy_rgb d i p = p[i := d ! i, i + 1 := d ! (i + 1), i + 2 := d ! (i + 2)]"

definition minAlpha :: "byte list \<Rightarrow> nat \<Rightarrow> nat \<Rightarrow> nat \<Rightarrow> int" where
  "minAlpha d w y x =
     fold (\<lambda>ky. fold (\<lambda>kx m.
        if kernel ! ky ! kx \<noteq> 0
        then min m (uint (d ! (pixelIndex w (y + ky - 1) (x + kx - 1) + 3)))
        else m) [0..<3]) [0..<3] 255"

definition maxAlpha :: "byte list \<Rightarrow> nat \<Rightarrow> nat \<Rightarrow> nat \<Rightarrow> int" where
  "maxAlpha d w y x =
     fold (\<lambda>ky. fold (\<lambda>kx m.
        if kernel ! ky ! kx \<noteq> 0
        then max m (uint (d ! (pixelIndex w (y + ky - 1) (x + kx - 1) + 3)))
        else m) [0..<3]) [0..<3] 0"

definition erode_px :: "byte list \<Rightarrow> nat \<Rightarrow> nat \<Rightarrow> nat \<Rightarrow> byte list \<Rightarrow> byte list" where
  "erode_px d w y x p = p[pixelIndex w y x + 3 := clamp_store_int (minAlpha d w y x)]"

definition dilate_px :: "byte list \<Rightarrow> nat \<Rightarrow> nat \<Rightarrow> nat \<Rightarrow> byte list \<Rightarrow> byte list" where
  "dilate_px e w y x p = p[pixelIndex w y x + 3 := clamp_store_int (maxAlpha e w y x)]"

definition erosion :: "byte list \<Rightarrow> nat \<Rightarrow> nat \<Rightarrow> byte list" where
  "erosion d w h =
     fold (\<lambda>y. fold (\<lambda>x. erode_px d w y x) [1..<w - 1]) [1..<h - 1]
       (fold (copy_rgb d) (quads (length d)) (replicate (length d) 0))"

definition dilation :: "byte list \<Rightarrow> nat \<Rightarrow> nat \<Rightarrow> byte list" where
  "dilation e w h =
     fold (\<lambda>y. fold (\<lambda>x. dilate_px e w y x) [1..<w - 1]) [1..<h - 1]
       (fold (\<lambda>i p. p[i := e ! i]) [0..<length e] (replicate (length e) 0))"

definition morphologicalOperations :: "ImageData \<Rightarrow> ImageData" where
  "morphologicalOperations img =
     \<lparr>data = dilation (erosion (data img) (width img) (height img)) (width img) (height img),
      width = width img, height = height img\<rparr>"

text \<open>The alpha sample of the pixel in column \<open>x\<close> of row \<open>y\<close>, as the number the code
  reads, and the relation between a coordinate and those of its 3x3 window.\<close>

definition alphaAt :: "byte list \<Rightarrow> nat \<Rightarrow> nat \<Rightarrow> nat \<Rightarrow> int" where
  "alphaAt d w x y = uint (d ! (pixelIndex w y x + 3))"

definition near :: "nat \<Rightarrow> nat \<Rightarrow> bool" where
  "near a b \<longleftrightarrow> a \<le> b + 1 \<and> b \<le> a + 1"

text \<open>
  A mask without features thinner than the structuring element: every pixel of non-zero
  alpha lies in a 3x3 window, centred on an interior pixel, none of whose alphas is below
  its own. For a binary mask this says that the foreground is a union of full 3x3
  squares.
\<close>

definition full_window :: "byte list \<Rightarrow> nat \<Rightarrow> nat \<Rightarrow> nat \<Rightarrow> nat \<Rightarrow> int \<Rightarrow> bool" where
  "full_window d w h cx cy a \<longleftrightarrow>
     interior w h cx cy \<and>
     list_all (\<lambda>y'. list_all (\<lambda>x'. a \<le> alphaAt d w x' y') [cx - 1..<cx + 2]) [cy - 1..<cy + 2]"

definition covered :: "byte list \<Rightarrow> nat \<Rightarrow> nat \<Rightarrow> nat \<Rightarrow> nat \<Rightarrow> bool" where
  "covered d w h x y \<longleftrightarrow>
     list_ex (\<lambda>cy. list_ex (\<lambda>cx. full_window d w h cx cy (alphaAt d w x y)) [x - 1..<x + 2])
       [y - 1..<y + 2]"

definition no_thin_features :: "ImageData \<Rightarrow> bool" where
  "no_thin_features img \<longleftrightarrow>
     list_all (\<lambda>y. list_all (\<lambda>x.
        alphaAt (data img) (width img) x y = 0 \<or>
        covered (data img) (width img) (height img) x y) [0..<width img]) [0..<height img]"

text \<open>A 5x5 image whose pixels are all fully opaque.\<close>

definition opaque5 :: ImageData where
  "opaque5 = \<lparr>data = concat (replicate 25 [200, 100, 50, 255]), width = 5, height = 5\<rparr>"

text \<open>A 3x3 image whose nine pixels are all fully opaque.\<close>

definition opaque3 :: ImageData where
  "opaque3 = \<lparr>data = concat (replicate 9 [10, 20, 30, 255]), width = 3, height = 3\<rparr>"

section \<open>Background colour segmentation\<close>

text \<open>
  \<^verbatim>\<open>colorSegmentation\<close>. A colour key is the string \<^verbatim>\<open>`${r},${g},${b}`\<close> of the three
  quantised channels; the model keeps the triple itself (the string is an injective
  encoding of it, and \<^verbatim>\<open>split(',').map(Number)\<close> decodes it). A histogram object is an
  association list in insertion order, which is the order \<^verbatim>\<open>Object.entries\<close>
  enumerates such keys in. The histogram over all pixels that the function builds first
  is never read again and is left out.
\<close>

type_synonym colorKey = "nat \<times> nat \<times> nat"

definition quantize :: "byte \<Rightarrow> nat" where
  "quantize v = unat v div 32 * 32"

definition colorKeyAt :: "byte list \<Rightarrow> nat \<Rightarrow> colorKey" where
  "colorKeyAt d i = (quantize (d ! i), quantize (d ! (i + 1)), quantize (d ! (i + 2)))"

text \<open>\<^verbatim>\<open>counts[colorKey] = (counts[colorKey] || 0) + 1\<close>\<close>

definition count_color :: "colorKey \<Rightarrow> (colorKey \<times> nat) list \<Rightarrow> (colorKey \<times> nat) list" where
  "count_color k counts =
     (case map_of counts k of
        None \<Rightarrow> counts @ [(k, 1)]
      | Some c \<Rightarrow> map (\<lambda>(k', c'). if k' = k then (k', c' + 1) else (k', c')) counts)"

text \<open>
  The border sample: the first loop pushes, for every column, the top and the bottom
  pixel; the second pushes, for every row, the left and the right pixel.
\<close>

definition rowLoop :: "nat \<Rightarrow> nat \<Rightarrow> nat list \<Rightarrow> nat list" where
  "rowLoop w h edgePixels =
     fold (\<lambda>x acc. acc @ [0 * w + x] @ [(h - 1) * w + x]) [0..<w] edgePixels"

definition colLoop :: "nat \<Rightarrow> nat \<Rightarrow> nat list \<Rightarrow> nat list" where
  "colLoop w h edgePixels =
     fold (\<lambda>y acc. acc @ [y * w + 0] @ [y * w + (w - 1)]) [0..<h] edgePixels"

definition edgePixels :: "nat \<Rightarrow> nat \<Rightarrow> nat list" where
  "edgePixels w h = colLoop w h (rowLoop w h [])"

definition edgeColorCounts :: "byte list \<Rightarrow> nat \<Rightarrow> nat \<Rightarrow> (colorKey \<times> nat) list" where
  "edgeColorCounts d w h =
     fold (\<lambda>pixelIndex counts. count_color (colorKeyAt d (pixelIndex * 4)) counts)
       (edgePixels w h) []"

text \<open>
  \<^verbatim>\<open>Object.entries(edgeColorCounts).sort(([,a], [,b]) => b - a).slice(0, 3)\<close>: the sort
  is stable, as \<open>sort_key\<close> is, and descending in the count.
\<close>

definition sortedEdgeColors :: "byte list \<Rightarrow> nat \<Rightarrow> nat \<Rightarrow> colorKey list" where
  "sortedEdgeColors d w h =
     map fst (take 3 (sort_key (\<lambda>(color, n). - int n) (edgeColorCounts d w h)))"

text \<open>The \<^verbatim>\<open>Set\<close> of background colours, in insertion order.\<close>

definition backgroundColors :: "byte list \<Rightarrow> nat \<Rightarrow> nat \<Rightarrow> colorKey list" where
  "backgroundColors d w h =
     fold (\<lambda>color s. if color \<in> set s then s else s @ [color]) (sortedEdgeColors d w h) []"

fun colorDistance :: "colorKey \<Rightarrow> colorKey \<Rightarrow> real" where
  "colorDistance (r, g, b) (bgR, bgG, bgB) =
     sqrt ((real r - real bgR)\<^sup>2 + (real g - real bgG)\<^sup>2 + (real b - real bgB)\<^sup>2)"

text \<open>
  \<^verbatim>\<open>isBackground\<close>: membership in the set, and otherwise the loop over the set that
  stops at the first colour closer than 80. The key passed in is the quantised colour of
  the pixel: the loop reuses the variables \<^verbatim>\<open>r\<close>, \<^verbatim>\<open>g\<close>, \<^verbatim>\<open>b\<close> that hold it.
\<close>

definition isBackground :: "colorKey list \<Rightarrow> colorKey \<Rightarrow> bool" where
  "isBackground bg colorKey \<longleftrightarrow>
     (if colorKey \<in> set bg then True
      else list_ex (\<lambda>bgColor. colorDistance colorKey bgColor < 80) bg)"

definition seg_px :: "byte list \<Rightarrow> colorKey list \<Rightarrow> nat \<Rightarrow> byte list \<Rightarrow> byte list" where
  "seg_px d bg i segmentedData =
     segmentedData[i := d ! i, i + 1 := d ! (i + 1), i + 2 := d ! (i + 2),
       i + 3 := (if isBackground bg (colorKeyAt d i) then 0 else 255)]"

definition colorSegmentation :: "ImageData \<Rightarrow> ImageData" where
  "colorSegmentation img =
     (let d = data img; bg = backgroundColors d (width img) (height img)
      in \<lparr>data = fold (seg_px d bg) (quads (length d)) (replicate (length d) 0),
          width = width img, height = height img\<rparr>)"

text \<open>
  The classification rule as the specification words it: an exact match of the
  quantised colour, or a distance below 80 between the raw colour of the pixel and a
  background bucket.
\<close>

definition rawDistance :: "byte list \<Rightarrow> nat \<Rightarrow> colorKey \<Rightarrow> real" where
  "rawDistance d i bgColor =
     colorDistance (unat (d ! i), unat (d ! (i + 1)), unat (d ! (i + 2))) bgColor"

definition spec_isBackground :: "colorKey list \<Rightarrow> byte list \<Rightarrow> nat \<Rightarrow> bool" where
  "spec_isBackground bg d i \<longleftrightarrow>
     colorKeyAt d i \<in> set bg \<or> (\<exists>bgColor \<in> set bg. rawDistance d i bgColor < 80)"

text \<open>The 4x4 uniform white image, and a 3x3 white image with one other centre pixel.\<close>

definition white4 :: ImageData where
  "white4 = \<lparr>data = concat (replicate 16 [255, 255, 255, 255]), width = 4, height = 4\<rparr>"

definition white3_centre :: ImageData where
  "white3_centre =
     \<lparr>data = concat (replicate 4 [255, 255, 255, 255]) @ [159, 224, 224, 255]
               @ concat (replicate 4 [255, 255, 255, 255]),
      width = 3, height = 3\<rparr>"

text \<open>The squared distance, an integer: \<open>colorDistance k b < 80\<close> iff it is below 6400.\<close>

definition sqDistance :: "colorKey \<Rightarrow> colorKey \<Rightarrow> int" where
  "sqDistance k b = (case k of (r, g, b') \<Rightarrow> case b of (bgR, bgG, bgB) \<Rightarrow>
      (int r - int bgR)\<^sup>2 + (int g - int bgG)\<^sup>2 + (int b' - int bgB)\<^sup>2)"

text \<open>The flat indices of the four corner pixels: top left, top right, bottom left,
  bottom right.\<close>

definition corners :: "nat \<Rightarrow> nat \<Rightarrow> nat list" where
  "corners w h = [0, w - 1, (h - 1) * w, (h - 1) * w + (w - 1)]"

section \<open>Edge detection\<close>

text \<open>
  \<^verbatim>\<open>detectEdges\<close>: for every interior pixel the nine grey values of the 3x3 window
  (the plain average of R, G and B) are weighted by the two Sobel kernels, and the
  magnitude \<^verbatim>\<open>Math.sqrt(pixelX * pixelX + pixelY * pixelY)\<close> is stored into R, G and B
  of a fresh zeroed array, with 255 into A. The numbers are doubles in the code and reals
  here.
\<close>

definition sobelX :: "int list" where
  "sobelX = [-1, 0, 1, -2, 0, 2, -1, 0, 1]"

definition sobelY :: "int list" where
  "sobelY = [-1, -2, -1, 0, 0, 0, 1, 2, 1]"

definition sobel_step :: "byte list \<Rightarrow> nat \<Rightarrow> nat \<Rightarrow> nat \<Rightarrow> nat \<Rightarrow> real \<times> real \<Rightarrow> real \<times> real" where
  "sobel_step d w y x i acc =
     (case acc of (pixelX, pixelY) \<Rightarrow>
        let xOffset = int (i mod 3) - 1;
            yOffset = int (i div 3) - 1;
            idx = nat (((int y + yOffset) * int w + (int x + xOffset)) * 4);
            gray = (real (unat (d ! idx)) + real (unat (d ! (idx + 1)))
                      + real (unat (d ! (idx + 2)))) / 3
        in (pixelX + gray * real_of_int (sobelX ! i), pixelY + gray * real_of_int (sobelY ! i)))"

definition magnitude :: "byte list \<Rightarrow> nat \<Rightarrow> nat \<Rightarrow> nat \<Rightarrow> real" where
  "magnitude d w y x =
     (case fold (sobel_step d w y x) [0..<9] (0, 0) of
        (pixelX, pixelY) \<Rightarrow> sqrt (pixelX * pixelX + pixelY * pixelY))"

definition edge_px :: "byte list \<Rightarrow> nat \<Rightarrow> nat \<Rightarrow> nat \<Rightarrow> byte list \<Rightarrow> byte list" where
  "edge_px d w y x edgeData =
     (let m = clamp_store (magnitude d w y x); i = pixelIndex w y x
      in edgeData[i := m, i + 1 := m, i + 2 := m, i + 3 := 255])"

definition detectEdges :: "ImageData \<Rightarrow> ImageData" where
  "detectEdges img =
     \<lparr>data = fold (\<lambda>y. fold (\<lambda>x. edge_px (data img) (width img) y x) [1..<width img - 1])
               [1..<height img - 1] (replicate (length (data img)) 0),
      width = width img, height = height img\<rparr>"

section \<open>Edge smoothing\<close>

text \<open>
  \<^verbatim>\<open>refineEdges\<close>: a copy of the input whose alpha, for the pixels at least
  \<^verbatim>\<open>blurRadius\<close> away from every side, is replaced by the rounded weighted mean of
  the input alpha over the offsets within distance \<^verbatim>\<open>blurRadius\<close>. The weights are
  doubles in the code and reals here; \<^verbatim>\<open>Math.round\<close> is \<open>round\<close>.
\<close>

definition blurRadius :: nat where
  "blurRadius = 2"

text \<open>\<^verbatim>\<open>for (d = -blurRadius; d <= blurRadius; d++)\<close>\<close>

definition offsets :: "int list" where
  "offsets = map (\<lambda>k. int k - int blurRadius) [0..<2 * blurRadius + 1]"

definition in_disc :: "int \<Rightarrow> int \<Rightarrow> bool" where
  "in_disc dy dx \<longleftrightarrow> sqrt (real_of_int (dx * dx + dy * dy)) \<le> real blurRadius"

definition blur_weight :: "int \<Rightarrow> int \<Rightarrow> real" where
  "blur_weight dy dx =
     (let distance = sqrt (real_of_int (dx * dx + dy * dy))
      in exp (- (distance * distance) / real (2 * blurRadius * blurRadius)))"

definition blur_alpha :: "byte list \<Rightarrow> nat \<Rightarrow> nat \<Rightarrow> nat \<Rightarrow> int \<Rightarrow> int \<Rightarrow> int" where
  "blur_alpha d w y x dy dx =
     uint (d ! (nat (((int y + dy) * int w + (int x + dx)) * 4) + 3))"

definition blur_step :: "byte list \<Rightarrow> nat \<Rightarrow> nat \<Rightarrow> nat \<Rightarrow> int \<Rightarrow> int \<Rightarrow> real \<times> real \<Rightarrow> real \<times> real" where
  "blur_step d w y x dy dx acc =
     (case acc of (alphaSum, weightSum) \<Rightarrow>
        if in_disc dy dx
        then (alphaSum + real_of_int (blur_alpha d w y x dy dx) * blur_weight dy dx,
              weightSum + blur_weight dy dx)
        else acc)"

definition blurred :: "byte list \<Rightarrow> nat \<Rightarrow> nat \<Rightarrow> nat \<Rightarrow> int" where
  "blurred d w y x =
     (case fold (\<lambda>dy. fold (\<lambda>dx. blur_step d w y x dy dx) offsets) offsets (0, 0) of
        (alphaSum, weightSum) \<Rightarrow> round (alphaSum / weightSum))"

definition refine_px :: "byte list \<Rightarrow> nat \<Rightarrow> nat \<Rightarrow> nat \<Rightarrow> byte list \<Rightarrow> byte list" where
  "refine_px d w y x refinedData =
     refinedData[pixelIndex w y x + 3 := clamp_store_int (blurred d w y x)]"

definition refineEdges :: "ImageData \<Rightarrow> ImageData" where
  "refineEdges img =
     (let d = data img; w = width img; h = height img
      in \<lparr>data = fold (\<lambda>y. fold (\<lambda>x. refine_px d w y x) [blurRadius..<w - blurRadius])
                   [blurRadius..<h - blurRadius]
                   (fold (\<lambda>i p. p[i := d ! i]) [0..<length d] (replicate (length d) 0)),
          width = w, height = h\<rparr>)"

text \<open>The pixels the blur loop visits, and the input alpha values of the circular
  window of such a pixel.\<close>

definition blur_processed :: "nat \<Rightarrow> nat \<Rightarrow> nat \<Rightarrow> nat \<Rightarrow> bool" where
  "blur_processed w h x y \<longleftrightarrow>
     blurRadius \<le> x \<and> x < w - blurRadius \<and> blurRadius \<le> y \<and> y < h - blurRadius"

definition window_alphas :: "byte list \<Rightarrow> nat \<Rightarrow> nat \<Rightarrow> nat \<Rightarrow> int list" where
  "window_alphas d w y x =
     concat (map (\<lambda>dy. map (\<lambda>dx. blur_alpha d w y x dy dx) (filter (in_disc dy) offsets))
       offsets)"

text \<open>A 5x5 image with a transparent frame around an opaque 3x3 block.\<close>

definition block5 :: ImageData where
  "block5 =
     \<lparr>data = concat (map (\<lambda>i. [200, 100, 50,
                 if i \<in> {6, 7, 8, 11, 12, 13, 16, 17, 18} then 255 else 0]) [0..<25]),
      width = 5, height = 5\<rparr>"

text \<open>The two sums stay between the bounds of the window, scaled by the weight.\<close>

definition mean_between :: "real \<Rightarrow> real \<Rightarrow> real \<times> real \<Rightarrow> bool" where
  "mean_between lo hi acc \<longleftrightarrow>
     0 \<le> snd acc \<and> lo * snd acc \<le> fst acc \<and> fst acc \<le> hi * snd acc"

section \<open>The radial fallback\<close>

text \<open>
  The pixel loop of \<^verbatim>\<open>processImageSimple\<close>, which overwrites the alpha of every pixel of
  the decoded image in place. \<open>radial_alpha\<close> is the value of \<^verbatim>\<open>alpha\<close> after the
  radial rule, \<open>simple_alpha\<close> after the edge rule. They are doubles in the code
  and reals here: the two differ by the rounding error of the doubles, which changes the
  stored byte only where the real value is within that error of a tie \<open>k + 1/2\<close> of
  the store. The comparisons of \<open>isEdgePixel\<close> are on integers, so that
  \<^verbatim>\<open>img.width - 10\<close> may be negative.
\<close>

definition radial_alpha :: "nat \<Rightarrow> nat \<Rightarrow> nat \<Rightarrow> nat \<Rightarrow> real" where
  "radial_alpha w h x y =
     (let centerX = real w / 2;
          centerY = real h / 2;
          maxDistance = sqrt (centerX * centerX + centerY * centerY);
          distance = sqrt ((real x - centerX)\<^sup>2 + (real y - centerY)\<^sup>2);
          normalizedDistance = distance / maxDistance
      in if normalizedDistance > 0.6
         then max 0 (255 * (1 - (normalizedDistance - 0.6) / 0.4))
         else 255)"

definition isEdgePixel :: "nat \<Rightarrow> nat \<Rightarrow> nat \<Rightarrow> nat \<Rightarrow> bool" where
  "isEdgePixel w h x y \<longleftrightarrow>
     int x < 10 \<or> int x > int w - 10 \<or> int y < 10 \<or> int y > int h - 10"

definition simple_alpha :: "nat \<Rightarrow> nat \<Rightarrow> nat \<Rightarrow> nat \<Rightarrow> real" where
  "simple_alpha w h x y =
     (let alpha = radial_alpha w h x y
      in if isEdgePixel w h x y then min alpha 50 else alpha)"

definition simple_px :: "nat \<Rightarrow> nat \<Rightarrow> nat \<Rightarrow> nat \<Rightarrow> byte list \<Rightarrow> byte list" where
  "simple_px w h y x d = d[pixelIndex w y x + 3 := clamp_store (simple_alpha w h x y)]"

definition simple_mask :: "ImageData \<Rightarrow> ImageData" where
  "simple_mask img =
     \<lparr>data = fold (\<lambda>y. fold (\<lambda>x. simple_px (width img) (height img) y x) [0..<width img])
               [0..<height img] (data img),
      width = width img, height = height img\<rparr>"

text \<open>The distance, in pixels, from a pixel to the nearest side of the image.\<close>

definition edge_distance :: "nat \<Rightarrow> nat \<Rightarrow> nat \<Rightarrow> nat \<Rightarrow> nat" where
  "edge_distance w h x y = min (min x (w - 1 - x)) (min y (h - 1 - y))"

text \<open>A 200x200 image (its content does not matter to the radial fallback).\<close>

definition blank200 :: ImageData where
  "blank200 = \<lparr>data = replicate (200 * 200 * 4) 0, width = 200, height = 200\<rparr>"

section \<open>The pipeline\<close>

text \<open>
  \<^verbatim>\<open>processImage\<close> returns a promise and assigns \<^verbatim>\<open>img.src\<close>, which asks the browser
  for one load of the image. The browser then fires one of the two handlers.
  \<^verbatim>\<open>onerror\<close> rejects the promise with \<^verbatim>\<open>Failed to load image\<close>. \<^verbatim>\<open>onload\<close> sizes the
  canvas to the decoded image, draws it, reads the pixels back, runs the three filters,
  puts the result on the canvas and resolves the promise with its PNG encoding; whatever
  is thrown on the way is caught and passed to \<^verbatim>\<open>reject\<close>.

  The state is the canvas of the instance and the number of loads requested. The outcome
  of the promise is a sum: \<open>Inl\<close> the rejection, \<open>Inr\<close> the buffer whose encoding
  resolves it. Two calls of the browser can throw: \<^verbatim>\<open>getImageData\<close> on a zero width or
  height, and the \<^verbatim>\<open>new ImageData(array, width, height)\<close> that ends each filter, unless
  the array holds \<open>4 * width * height\<close> samples.
\<close>

datatype error = Failed_to_load_image | IndexSizeError | InvalidStateError

datatype load_event = Onload ImageData | Onerror

record world =
  canvas :: ImageData
  load_requests :: nat

definition getImageData :: "ImageData \<Rightarrow> error + ImageData" where
  "getImageData c =
     (if width c = 0 \<or> height c = 0 then Inl IndexSizeError else Inr c)"

definition new_ImageData :: "byte list \<Rightarrow> nat \<Rightarrow> nat \<Rightarrow> error + ImageData" where
  "new_ImageData d sw sh =
     (if length d = 0 \<or> length d mod 4 \<noteq> 0 then Inl InvalidStateError
      else if sw = 0 \<or> (length d div 4) mod sw \<noteq> 0 \<or> (length d div 4) div sw \<noteq> sh
      then Inl IndexSizeError
      else Inr \<lparr>data = d, width = sw, height = sh\<rparr>)"

text \<open>A filter together with the constructor call that returns its result.\<close>

definition constructed :: "(ImageData \<Rightarrow> ImageData) \<Rightarrow> ImageData \<Rightarrow> error + ImageData" where
  "constructed f imageData =
     new_ImageData (data (f imageData)) (width imageData) (height imageData)"

definition onload :: "ImageData \<Rightarrow> world \<Rightarrow> (error + ImageData) \<times> world" where
  "onload img wd =
     (let drawn = wd\<lparr>canvas := img\<rparr>
      in case getImageData (canvas drawn) of
           Inl e \<Rightarrow> (Inl e, drawn)
         | Inr imageData \<Rightarrow>
             (case constructed colorSegmentation imageData of
                Inl e \<Rightarrow> (Inl e, drawn)
              | Inr segmented \<Rightarrow>
                  (case constructed morphologicalOperations segmented of
                     Inl e \<Rightarrow> (Inl e, drawn)
                   | Inr morphed \<Rightarrow>
                       (case constructed refineEdges morphed of
                          Inl e \<Rightarrow> (Inl e, drawn)
                        | Inr refined \<Rightarrow> (Inr refined, drawn\<lparr>canvas := refined\<rparr>)))))"

definition processImage :: "load_event \<Rightarrow> world \<Rightarrow> (error + ImageData) \<times> world" where
  "processImage ev wd =
     (let requested = wd\<lparr>load_requests := load_requests wd + 1\<rparr>
      in case ev of
           Onerror \<Rightarrow> (Inl Failed_to_load_image, requested)
         | Onload img \<Rightarrow> onload img requested)"

text \<open>A decoded image of zero size, and a state to start from.\<close>

definition empty_image :: ImageData where
  "empty_image = \<lparr>data = [], width = 0, height = 0\<rparr>"

definition fresh :: world where
  "fresh = \<lparr>canvas = empty_image, load_requests = 0\<rparr>"

text \<open>The three filters keep the dimensions and the number of samples.\<close>

definition keeps_shape :: "(ImageData \<Rightarrow> ImageData) \<Rightarrow> bool" where
  "keeps_shape f \<longleftrightarrow>
     (\<forall>img. f img = \<lparr>data = data (f img), width = width img, height = height img\<rparr> \<and>
            length (data (f img)) = length (data img))"

section \<open>Loops that write into an array\<close>

lemma length_fold_writes:
  assumes "\<And>k p. k \<in> set ks \<Longrightarrow> length (f k p) = length p"
  shows "length (fold f ks p) = length (p :: 'a list)"
  using assms by (induction ks arbitrary: p) simp_all

lemma nth_fold_untouched:
  assumes "\<And>k p. k \<in> set ks \<Longrightarrow> f k p ! j = p ! j"
  shows "fold f ks p ! j = (p :: 'a list) ! j"
  using assms by (induction ks arbitrary: p) simp_all

lemma nth_fold_kept:
  assumes "\<And>k p. k \<in> set ks \<Longrightarrow> length p = n \<Longrightarrow> p ! j = v \<Longrightarrow> f k p ! j = v"
    and "\<And>k p. k \<in> set ks \<Longrightarrow> length (f k p) = length p"
    and "length p = n" and "p ! j = v"
  shows "fold f ks p ! j = v"
  using assms by (induction ks arbitrary: p) simp_all

lemma nth_fold_written:
  assumes "k0 \<in> set ks"
    and "\<And>p. length p = n \<Longrightarrow> f k0 p ! j = v"
    and "\<And>k p. k \<in> set ks \<Longrightarrow> length p = n \<Longrightarrow> p ! j = v \<Longrightarrow> f k p ! j = v"
    and "\<And>k p. k \<in> set ks \<Longrightarrow> length (f k p) = length p"
    and "length p = n"
  shows "fold f ks p ! j = v"
  using assms
proof (induction ks arbitrary: p)
  case Nil
  then show ?case by simp
next
  case (Cons k ks)
  have len: "length (f k p) = n"
    using Cons.prems(4) [of k p] Cons.prems(5) by simp
  show ?case
  proof (cases "k = k0")
    case True
    have "f k p ! j = v"
      using Cons.prems(2) [of p] Cons.prems(5) True by simp
    then have "fold f ks (f k p) ! j = v"
      using Cons.prems(3,4) len by (intro nth_fold_kept [where n = n]) simp_all
    then show ?thesis by simp
  next
    case False
    then have "k0 \<in> set ks" using Cons.prems(1) by simp
    then have "fold f ks (f k p) ! j = v"
      using Cons.prems(2,3,4) len by (intro Cons.IH) simp_all
    then show ?thesis by simp
  qed
qed

lemma pixel_loop_length:
  assumes "\<And>y x p. length (body y x p) = length (p :: 'a list)"
  shows "length (fold (\<lambda>y. fold (body y) xs) ys p) = length p"
  by (intro length_fold_writes) (simp add: assms)

lemma pixel_loop_untouched:
  assumes "\<And>y x p. y \<in> set ys \<Longrightarrow> x \<in> set xs \<Longrightarrow> body y x p ! j = (p :: 'a list) ! j"
  shows "fold (\<lambda>y. fold (body y) xs) ys p ! j = p ! j"
  by (intro nth_fold_untouched) (simp add: assms)

lemma pixel_loop_written:
  assumes y0: "y0 \<in> set ys" and x0: "x0 \<in> set xs"
    and len: "\<And>y x p. length (body y x p) = length (p :: 'a list)"
    and hit: "\<And>p. length p = n \<Longrightarrow> body y0 x0 p ! j = v"
    and frame: "\<And>y x p. y \<in> set ys \<Longrightarrow> x \<in> set xs \<Longrightarrow> (y, x) \<noteq> (y0, x0)
                  \<Longrightarrow> body y x p ! j = p ! j"
    and n: "length p = n"
  shows "fold (\<lambda>y. fold (body y) xs) ys p ! j = v"
proof -
  have kept: "body y x q ! j = v"
    if "y \<in> set ys" "x \<in> set xs" "length q = n" "q ! j = v" for y x q
    using that hit [of q] frame [of y x q] by (cases "(y, x) = (y0, x0)") auto
  have inner_len: "length (fold (body y) xs q) = length q" for y q
    by (intro length_fold_writes) (simp add: len)
  have inner_kept: "fold (body y) xs q ! j = v"
    if "y \<in> set ys" "length q = n" "q ! j = v" for y q
    using that kept len by (intro nth_fold_kept [where n = n]) simp_all
  have inner_hit: "fold (body y0) xs q ! j = v" if "length q = n" for q
    using x0 that hit kept [OF y0] len by (intro nth_fold_written [where n = n and ?k0.0 = x0]) simp_all
  show ?thesis
    using y0 n inner_hit inner_kept inner_len
    by (intro nth_fold_written [where n = n and ?k0.0 = y0]) simp_all
qed

lemma pixelIndex_inj:
  assumes "x < w" "x' < w" "pixelIndex w y x + c = pixelIndex w y' x' + c'" "c < 4" "c' < 4"
  shows "y = y' \<and> x = x' \<and> c = c'"
proof -
  have e: "(y * w + x) * 4 + c = (y' * w + x') * 4 + c'"
    using assms(3) by (simp add: pixelIndex_def)
  have "((y * w + x) * 4 + c) mod 4 = c" "((y' * w + x') * 4 + c') mod 4 = c'"
    using assms(4,5) by presburger+
  then have c: "c = c'" using e by metis
  have "((y * w + x) * 4 + c) div 4 = y * w + x" "((y' * w + x') * 4 + c') div 4 = y' * w + x'"
    using assms(4,5) by presburger+
  then have q: "y * w + x = y' * w + x'" using e by metis
  have "(y * w + x) div w = y" "(y' * w + x') div w = y'" "(y * w + x) mod w = x" "(y' * w + x') mod w = x'"
    using assms(1,2) by simp_all
  then show ?thesis using q c by metis
qed

lemma pixelIndex_bound:
  assumes "x < w" "y < h" "c < 4"
  shows "pixelIndex w y x + c < w * h * 4"
proof -
  have "y * w + x < w * h"
  proof -
    have "y * w + x < y * w + w" using assms(1) by simp
    also have "\<dots> = (y + 1) * w" by simp
    also have "\<dots> \<le> h * w" using assms(2) by (intro mult_le_mono1) simp
    finally show ?thesis by (simp add: mult.commute)
  qed
  then show ?thesis using assms(3) by (simp add: pixelIndex_def)
qed


lemma nth_update_outside: "length xs \<le> j \<Longrightarrow> xs[i := v] ! j = xs ! j"
  by (cases "i = j") (simp_all add: list_update_beyond)

lemma copy_rgb_nth:
  "copy_rgb d i p ! j = (if j < length p \<and> (j = i \<or> j = i + 1 \<or> j = i + 2) then d ! j else p ! j)"
  by (cases "j < length p") (auto simp: copy_rgb_def nth_list_update nth_update_outside)

lemma length_copy_rgb: "length (copy_rgb d i p) = length p"
  by (simp add: copy_rgb_def)

lemma set_quads: "set (quads n) = {i. i < n \<and> i mod 4 = 0}"
proof -
  have "\<exists>k<(n + 3) div 4. i = 4 * k" if lt: "i < n" and m: "i mod 4 = 0" for i
  proof -
    obtain k where k: "i = 4 * k" using m by (metis mod_eq_0_iff_dvd dvdE)
    then have "k < (n + 3) div 4" using lt by arith
    then show ?thesis using k by blast
  qed
  moreover have "4 * k < n" if "k < (n + 3) div 4" for k
    using that by arith
  ultimately show ?thesis by (auto simp: quads_def)
qed

lemma rgb_copy_loop_length:
  "length (fold (copy_rgb d) (quads n) p) = length p"
  by (intro length_fold_writes) (simp add: length_copy_rgb)

lemma rgb_copy_loop_nth:
  assumes "j < length d"
  shows "fold (copy_rgb d) (quads (length d)) (replicate (length d) 0) ! j =
           (if j mod 4 = 3 then 0 else d ! j)"
proof (cases "j mod 4 = 3")
  case True
  have "fold (copy_rgb d) (quads (length d)) (replicate (length d) 0) ! j =
          replicate (length d) 0 ! j"
  proof (intro nth_fold_untouched)
    fix k p assume "k \<in> set (quads (length d))"
    then have "k mod 4 = 0" by (simp add: set_quads)
    then have "j \<noteq> k" "j \<noteq> k + 1" "j \<noteq> k + 2" using True by arith+
    then show "copy_rgb d k p ! j = p ! j" by (simp add: copy_rgb_nth)
  qed
  then show ?thesis using True assms by simp
next
  case False
  define k0 where "k0 = 4 * (j div 4)"
  have k0: "k0 \<in> set (quads (length d))"
    using assms by (simp add: set_quads k0_def)
  have j: "j = k0 \<or> j = k0 + 1 \<or> j = k0 + 2"
    using False unfolding k0_def by arith
  have "fold (copy_rgb d) (quads (length d)) (replicate (length d) 0) ! j = d ! j"
  proof (intro nth_fold_written [where n = "length d" and ?k0.0 = k0])
    show "k0 \<in> set (quads (length d))" by (rule k0)
    show "copy_rgb d k0 p ! j = d ! j" if "length p = length d" for p
      using that assms j by (simp add: copy_rgb_nth)
    show "copy_rgb d k p ! j = d ! j" if "p ! j = d ! j" for k p
      using that by (simp add: copy_rgb_nth)
    show "length (copy_rgb d k p) = length p" for k p
      by (rule length_copy_rgb)
    show "length (replicate (length d) (0 :: byte)) = length d" by simp
  qed
  then show ?thesis using False by simp
qed


lemma pixelIndex_alpha_mod: "(pixelIndex w y x + 3) mod 4 = 3"
  unfolding pixelIndex_def by arith

lemma length_erode_px: "length (erode_px d w y x p) = length p"
  by (simp add: erode_px_def)

lemma length_erosion: "length (erosion d w h) = length d"
  unfolding erosion_def
  by (simp add: pixel_loop_length length_erode_px rgb_copy_loop_length)

lemma erosion_rgb:
  assumes "j < length d" "j mod 4 \<noteq> 3"
  shows "erosion d w h ! j = d ! j"
proof -
  have "erode_px d w y x p ! j = p ! j" for y x p
  proof -
    have "pixelIndex w y x + 3 \<noteq> j"
      using assms(2) pixelIndex_alpha_mod [of w y x] by auto
    then show ?thesis by (simp add: erode_px_def)
  qed
  then have "erosion d w h ! j = fold (copy_rgb d) (quads (length d)) (replicate (length d) 0) ! j"
    unfolding erosion_def by (intro pixel_loop_untouched) simp
  then show ?thesis using assms by (simp add: rgb_copy_loop_nth)
qed

lemma erosion_alpha_interior:
  assumes "length d = w * h * 4" "interior w h x y"
  shows "erosion d w h ! (pixelIndex w y x + 3) = clamp_store_int (minAlpha d w y x)"
  unfolding erosion_def
proof (intro pixel_loop_written [where n = "length d" and ?y0.0 = y and ?x0.0 = x])
  have x: "x < w" and y: "y < h" using assms(2) by (auto simp: interior_def)
  have j: "pixelIndex w y x + 3 < length d"
    using pixelIndex_bound [OF x y, of 3] assms(1) by simp
  show "y \<in> set [1..<h - 1]" "x \<in> set [1..<w - 1]"
    using assms(2) by (auto simp: interior_def)
  show "length (erode_px d w y' x' p) = length p" for y' x' p
    by (rule length_erode_px)
  show "erode_px d w y x p ! (pixelIndex w y x + 3) = clamp_store_int (minAlpha d w y x)"
    if "length p = length d" for p
    using that j by (simp add: erode_px_def)
  show "erode_px d w y' x' p ! (pixelIndex w y x + 3) = p ! (pixelIndex w y x + 3)"
    if "y' \<in> set [1..<h - 1]" "x' \<in> set [1..<w - 1]" "(y', x') \<noteq> (y, x)" for y' x' p
  proof -
    have "x' < w" using that(2) by auto
    then have "pixelIndex w y' x' + 3 \<noteq> pixelIndex w y x + 3"
      using pixelIndex_inj [of x' w x y' 3 y 3] x that(3) by auto
    then show ?thesis by (simp add: erode_px_def)
  qed
  show "length (fold (copy_rgb d) (quads (length d)) (replicate (length d) 0)) = length d"
    by (simp add: rgb_copy_loop_length)
qed

lemma erosion_alpha_border:
  assumes "length d = w * h * 4" "x < w" "y < h" "\<not> interior w h x y"
  shows "erosion d w h ! (pixelIndex w y x + 3) = 0"
proof -
  have j: "pixelIndex w y x + 3 < length d"
    using pixelIndex_bound [OF assms(2,3), of 3] assms(1) by simp
  have "erode_px d w y' x' p ! (pixelIndex w y x + 3) = p ! (pixelIndex w y x + 3)"
    if "y' \<in> set [1..<h - 1]" "x' \<in> set [1..<w - 1]" for y' x' p
  proof -
    have "x' < w" and "(y', x') \<noteq> (y, x)"
      using that assms(4) by (auto simp: interior_def)
    then have "pixelIndex w y' x' + 3 \<noteq> pixelIndex w y x + 3"
      using pixelIndex_inj [of x' w x y' 3 y 3] assms(2) by auto
    then show ?thesis by (simp add: erode_px_def)
  qed
  then have "erosion d w h ! (pixelIndex w y x + 3) =
      fold (copy_rgb d) (quads (length d)) (replicate (length d) 0) ! (pixelIndex w y x + 3)"
    unfolding erosion_def by (intro pixel_loop_untouched) simp
  then show ?thesis using j by (simp add: rgb_copy_loop_nth pixelIndex_alpha_mod)
qed

lemma copy_all_loop: "fold (\<lambda>i p. p[i := e ! i]) [0..<length e] (replicate (length e) 0) = (e :: byte list)"
proof (intro nth_equalityI)
  show len: "length (fold (\<lambda>i p. p[i := e ! i]) [0..<length e] (replicate (length e) 0)) = length e"
    by (simp add: length_fold_writes)
  fix j assume "j < length (fold (\<lambda>i p. p[i := e ! i]) [0..<length e] (replicate (length e) 0))"
  then have j: "j < length e" using len by simp
  show "fold (\<lambda>i p. p[i := e ! i]) [0..<length e] (replicate (length e) 0) ! j = e ! j"
  proof (intro nth_fold_written [where n = "length e" and ?k0.0 = j])
    show "j \<in> set [0..<length e]" using j by simp
    show "p[j := e ! j] ! j = e ! j" if "length p = length e" for p
      using that j by simp
    show "p[k := e ! k] ! j = e ! j" if "p ! j = e ! j" for k p
      using that by (cases "k = j"; cases "j < length p") (simp_all add: nth_update_outside)
    show "length (p[k := e ! k]) = length p" for k p by simp
    show "length (replicate (length e) (0 :: byte)) = length e" by simp
  qed
qed

lemma length_dilate_px: "length (dilate_px e w y x p) = length p"
  by (simp add: dilate_px_def)

lemma length_dilation: "length (dilation e w h) = length e"
  unfolding dilation_def copy_all_loop
  by (simp add: pixel_loop_length length_dilate_px)

lemma dilation_rgb:
  assumes "j mod 4 \<noteq> 3"
  shows "dilation e w h ! j = e ! j"
proof -
  have "dilate_px e w y x p ! j = p ! j" for y x p
  proof -
    have "pixelIndex w y x + 3 \<noteq> j"
      using assms pixelIndex_alpha_mod [of w y x] by auto
    then show ?thesis by (simp add: dilate_px_def)
  qed
  then show ?thesis
    unfolding dilation_def copy_all_loop by (intro pixel_loop_untouched) simp
qed

lemma dilation_alpha_interior:
  assumes "length e = w * h * 4" "interior w h x y"
  shows "dilation e w h ! (pixelIndex w y x + 3) = clamp_store_int (maxAlpha e w y x)"
  unfolding dilation_def copy_all_loop
proof (intro pixel_loop_written [where n = "length e" and ?y0.0 = y and ?x0.0 = x])
  have x: "x < w" and y: "y < h" using assms(2) by (auto simp: interior_def)
  have j: "pixelIndex w y x + 3 < length e"
    using pixelIndex_bound [OF x y, of 3] assms(1) by simp
  show "y \<in> set [1..<h - 1]" "x \<in> set [1..<w - 1]"
    using assms(2) by (auto simp: interior_def)
  show "length (dilate_px e w y' x' p) = length p" for y' x' p
    by (rule length_dilate_px)
  show "dilate_px e w y x p ! (pixelIndex w y x + 3) = clamp_store_int (maxAlpha e w y x)"
    if "length p = length e" for p
    using that j by (simp add: dilate_px_def)
  show "dilate_px e w y' x' p ! (pixelIndex w y x + 3) = p ! (pixelIndex w y x + 3)"
    if "y' \<in> set [1..<h - 1]" "x' \<in> set [1..<w - 1]" "(y', x') \<noteq> (y, x)" for y' x' p
  proof -
    have "x' < w" using that(2) by auto
    then have "pixelIndex w y' x' + 3 \<noteq> pixelIndex w y x + 3"
      using pixelIndex_inj [of x' w x y' 3 y 3] x that(3) by auto
    then show ?thesis by (simp add: dilate_px_def)
  qed
  show "length e = length e" by simp
qed

lemma dilation_alpha_border:
  assumes "x < w" "\<not> interior w h x y"
  shows "dilation e w h ! (pixelIndex w y x + 3) = e ! (pixelIndex w y x + 3)"
proof -
  have "dilate_px e w y' x' p ! (pixelIndex w y x + 3) = p ! (pixelIndex w y x + 3)"
    if "y' \<in> set [1..<h - 1]" "x' \<in> set [1..<w - 1]" for y' x' p
  proof -
    have "x' < w" and "(y', x') \<noteq> (y, x)"
      using that assms(2) by (auto simp: interior_def)
    then have "pixelIndex w y' x' + 3 \<noteq> pixelIndex w y x + 3"
      using pixelIndex_inj [of x' w x y' 3 y 3] assms(1) by auto
    then show ?thesis by (simp add: dilate_px_def)
  qed
  then show ?thesis
    unfolding dilation_def copy_all_loop by (intro pixel_loop_untouched) simp
qed

lemma near_offset: "near a b \<longleftrightarrow> (\<exists>k \<in> set [0..<3]. b = a + k - 1)"
proof
  assume "near a b"
  then have "b = a + 0 - 1 \<or> b = a + 1 - 1 \<or> b = a + 2 - 1"
    unfolding near_def by arith
  moreover have "(0::nat) \<in> set [0..<3]" "(1::nat) \<in> set [0..<3]" "(2::nat) \<in> set [0..<3]"
    by simp_all
  ultimately show "\<exists>k \<in> set [0..<3]. b = a + k - 1" by blast
next
  assume "\<exists>k \<in> set [0..<3]. b = a + k - 1"
  then obtain k where "k < 3" "b = a + k - 1" by auto
  then show "near a b" unfolding near_def by arith
qed

lemma near_sym: "near a b \<Longrightarrow> near b a"
  by (simp add: near_def)

lemma kernel_full: "ky < 3 \<Longrightarrow> kx < 3 \<Longrightarrow> kernel ! ky ! kx \<noteq> 0"
proof -
  assume "ky < 3" "kx < 3"
  then have "ky = 0 \<or> ky = 1 \<or> ky = 2" "kx = 0 \<or> kx = 1 \<or> kx = 2" by arith+
  then show ?thesis by (auto simp: kernel_def)
qed

lemma window_fold_cong:
  assumes "\<And>ky kx m. ky \<in> set ys \<Longrightarrow> kx \<in> set xs \<Longrightarrow> f ky kx m = g ky kx m"
  shows "fold (\<lambda>ky. fold (f ky) xs) ys m = fold (\<lambda>ky. fold (g ky) xs) ys m"
proof -
  have "fold (f ky) xs = fold (g ky) xs" if "ky \<in> set ys" for ky
    using that assms by (intro fold_cong ext) auto
  then show ?thesis by (intro fold_cong) auto
qed

lemma minAlpha_window:
  "minAlpha d w y x =
     fold (\<lambda>ky. fold (\<lambda>kx m. min m (alphaAt d w (x + kx - 1) (y + ky - 1))) [0..<3]) [0..<3] 255"
  unfolding minAlpha_def alphaAt_def
  by (intro window_fold_cong) (simp add: kernel_full)

lemma maxAlpha_window:
  "maxAlpha d w y x =
     fold (\<lambda>ky. fold (\<lambda>kx m. max m (alphaAt d w (x + kx - 1) (y + ky - 1))) [0..<3]) [0..<3] 0"
  unfolding maxAlpha_def alphaAt_def
  by (intro window_fold_cong) (simp add: kernel_full)

lemma fold_min_le_init: "fold (\<lambda>k m. min m (g k)) ks m \<le> (m :: int)"
proof (induction ks arbitrary: m)
  case Nil
  show ?case by simp
next
  case (Cons k ks)
  have "fold (\<lambda>k m. min m (g k)) ks (min m (g k)) \<le> min m (g k)" by (rule Cons.IH)
  also have "\<dots> \<le> m" by simp
  finally show ?case by simp
qed

lemma fold_min_le_elem: "k \<in> set ks \<Longrightarrow> fold (\<lambda>k m. min m (g k)) ks m \<le> (g k :: int)"
proof (induction ks arbitrary: m)
  case Nil
  then show ?case by simp
next
  case (Cons a ks)
  show ?case
  proof (cases "k = a")
    case True
    have "fold (\<lambda>k m. min m (g k)) ks (min m (g a)) \<le> min m (g a)" by (rule fold_min_le_init)
    also have "\<dots> \<le> g a" by simp
    finally show ?thesis using True by simp
  next
    case False
    then have "k \<in> set ks" using Cons.prems by simp
    then show ?thesis using Cons.IH by simp
  qed
qed

lemma fold_min_ge:
  "c \<le> m \<Longrightarrow> (\<And>k. k \<in> set ks \<Longrightarrow> c \<le> g k) \<Longrightarrow> c \<le> fold (\<lambda>k m. min m (g k)) ks (m :: int)"
  by (induction ks arbitrary: m) simp_all

lemma fold_max_ge_init: "(m :: int) \<le> fold (\<lambda>k m. max m (g k)) ks m"
proof (induction ks arbitrary: m)
  case Nil
  show ?case by simp
next
  case (Cons k ks)
  have "m \<le> max m (g k)" by simp
  also have "\<dots> \<le> fold (\<lambda>k m. max m (g k)) ks (max m (g k))" by (rule Cons.IH)
  finally show ?case by simp
qed

lemma fold_max_ge_elem: "k \<in> set ks \<Longrightarrow> (g k :: int) \<le> fold (\<lambda>k m. max m (g k)) ks m"
proof (induction ks arbitrary: m)
  case Nil
  then show ?case by simp
next
  case (Cons a ks)
  show ?case
  proof (cases "k = a")
    case True
    have "g a \<le> max m (g a)" by simp
    also have "\<dots> \<le> fold (\<lambda>k m. max m (g k)) ks (max m (g a))" by (rule fold_max_ge_init)
    finally show ?thesis using True by simp
  next
    case False
    then have "k \<in> set ks" using Cons.prems by simp
    then show ?thesis using Cons.IH by simp
  qed
qed

lemma fold_max_le:
  "m \<le> c \<Longrightarrow> (\<And>k. k \<in> set ks \<Longrightarrow> g k \<le> c) \<Longrightarrow> fold (\<lambda>k m. max m (g k)) ks (m :: int) \<le> c"
  by (induction ks arbitrary: m) simp_all


lemma window_min_le_init:
  "fold (\<lambda>ky. fold (\<lambda>kx m. min m (g ky kx)) xs) ys m \<le> (m :: int)"
proof (induction ys arbitrary: m)
  case Nil
  show ?case by simp
next
  case (Cons a ys)
  have "fold (\<lambda>ky. fold (\<lambda>kx m. min m (g ky kx)) xs) ys (fold (\<lambda>kx m. min m (g a kx)) xs m)
          \<le> fold (\<lambda>kx m. min m (g a kx)) xs m" by (rule Cons.IH)
  also have "\<dots> \<le> m" by (rule fold_min_le_init)
  finally show ?case by simp
qed

lemma window_min_le_elem:
  "ky \<in> set ys \<Longrightarrow> kx \<in> set xs \<Longrightarrow>
     fold (\<lambda>ky. fold (\<lambda>kx m. min m (g ky kx)) xs) ys m \<le> (g ky kx :: int)"
proof (induction ys arbitrary: m)
  case Nil
  then show ?case by simp
next
  case (Cons a ys)
  show ?case
  proof (cases "ky = a")
    case True
    have "fold (\<lambda>ky. fold (\<lambda>kx m. min m (g ky kx)) xs) ys (fold (\<lambda>kx m. min m (g a kx)) xs m)
            \<le> fold (\<lambda>kx m. min m (g a kx)) xs m" by (rule window_min_le_init)
    also have "\<dots> \<le> g a kx" using Cons.prems(2) by (rule fold_min_le_elem)
    finally show ?thesis using True by simp
  next
    case False
    then have "ky \<in> set ys" using Cons.prems(1) by simp
    then show ?thesis using Cons.IH Cons.prems(2) by simp
  qed
qed

lemma window_min_ge:
  "c \<le> m \<Longrightarrow> (\<And>ky kx. ky \<in> set ys \<Longrightarrow> kx \<in> set xs \<Longrightarrow> c \<le> g ky kx) \<Longrightarrow>
     c \<le> fold (\<lambda>ky. fold (\<lambda>kx m. min m (g ky kx)) xs) ys (m :: int)"
proof (induction ys arbitrary: m)
  case Nil
  then show ?case by simp
next
  case (Cons a ys)
  have "c \<le> fold (\<lambda>kx m. min m (g a kx)) xs m"
    using Cons.prems by (intro fold_min_ge) simp_all
  then have "c \<le> fold (\<lambda>ky. fold (\<lambda>kx m. min m (g ky kx)) xs) ys (fold (\<lambda>kx m. min m (g a kx)) xs m)"
    using Cons.prems(2) by (intro Cons.IH) simp_all
  then show ?case by simp
qed

lemma window_max_ge_init:
  "(m :: int) \<le> fold (\<lambda>ky. fold (\<lambda>kx m. max m (g ky kx)) xs) ys m"
proof (induction ys arbitrary: m)
  case Nil
  show ?case by simp
next
  case (Cons a ys)
  have "m \<le> fold (\<lambda>kx m. max m (g a kx)) xs m" by (rule fold_max_ge_init)
  also have "\<dots> \<le> fold (\<lambda>ky. fold (\<lambda>kx m. max m (g ky kx)) xs) ys (fold (\<lambda>kx m. max m (g a kx)) xs m)"
    by (rule Cons.IH)
  finally show ?case by simp
qed

lemma window_max_ge_elem:
  "ky \<in> set ys \<Longrightarrow> kx \<in> set xs \<Longrightarrow>
     (g ky kx :: int) \<le> fold (\<lambda>ky. fold (\<lambda>kx m. max m (g ky kx)) xs) ys m"
proof (induction ys arbitrary: m)
  case Nil
  then show ?case by simp
next
  case (Cons a ys)
  show ?case
  proof (cases "ky = a")
    case True
    have "g a kx \<le> fold (\<lambda>kx m. max m (g a kx)) xs m"
      using Cons.prems(2) by (rule fold_max_ge_elem)
    also have "\<dots> \<le> fold (\<lambda>ky. fold (\<lambda>kx m. max m (g ky kx)) xs) ys (fold (\<lambda>kx m. max m (g a kx)) xs m)"
      by (rule window_max_ge_init)
    finally show ?thesis using True by simp
  next
    case False
    then have "ky \<in> set ys" using Cons.prems(1) by simp
    then show ?thesis using Cons.IH Cons.prems(2) by simp
  qed
qed

lemma window_max_le:
  "m \<le> c \<Longrightarrow> (\<And>ky kx. ky \<in> set ys \<Longrightarrow> kx \<in> set xs \<Longrightarrow> g ky kx \<le> c) \<Longrightarrow>
     fold (\<lambda>ky. fold (\<lambda>kx m. max m (g ky kx)) xs) ys (m :: int) \<le> c"
proof (induction ys arbitrary: m)
  case Nil
  then show ?case by simp
next
  case (Cons a ys)
  have "fold (\<lambda>kx m. max m (g a kx)) xs m \<le> c"
    using Cons.prems by (intro fold_max_le) simp_all
  then have "fold (\<lambda>ky. fold (\<lambda>kx m. max m (g ky kx)) xs) ys (fold (\<lambda>kx m. max m (g a kx)) xs m) \<le> c"
    using Cons.prems(2) by (intro Cons.IH) simp_all
  then show ?case by simp
qed

lemma alphaAt_range: "0 \<le> alphaAt d w x y" "alphaAt d w x y \<le> 255"
proof -
  show "0 \<le> alphaAt d w x y" by (simp add: alphaAt_def)
  have "uint (d ! (pixelIndex w y x + 3)) < 2 ^ 8"
    using uint_bounded [of "d ! (pixelIndex w y x + 3)"] by simp
  then show "alphaAt d w x y \<le> 255" by (simp add: alphaAt_def)
qed

lemma minAlpha_le:
  assumes "near x x'" "near y y'"
  shows "minAlpha d w y x \<le> alphaAt d w x' y'"
proof -
  obtain kx ky where k: "kx \<in> set [0..<3]" "x' = x + kx - 1" "ky \<in> set [0..<3]" "y' = y + ky - 1"
    using assms unfolding near_offset by blast
  show ?thesis
    unfolding minAlpha_window k(2,4)
    using k(3,1) by (rule window_min_le_elem)
qed

lemma minAlpha_le_255: "minAlpha d w y x \<le> 255"
  unfolding minAlpha_window by (rule window_min_le_init)

lemma minAlpha_ge:
  assumes "c \<le> 255" "\<And>x' y'. near x x' \<Longrightarrow> near y y' \<Longrightarrow> c \<le> alphaAt d w x' y'"
  shows "c \<le> minAlpha d w y x"
  unfolding minAlpha_window
proof (intro window_min_ge assms(1))
  fix ky kx :: nat assume "ky \<in> set [0..<3]" "kx \<in> set [0..<3]"
  then have "near x (x + kx - 1)" "near y (y + ky - 1)"
    unfolding near_offset by blast+
  then show "c \<le> alphaAt d w (x + kx - 1) (y + ky - 1)" by (rule assms(2))
qed

lemma minAlpha_ge_0: "0 \<le> minAlpha d w y x"
  by (intro minAlpha_ge) (simp_all add: alphaAt_range)

lemma maxAlpha_ge:
  assumes "near x x'" "near y y'"
  shows "alphaAt d w x' y' \<le> maxAlpha d w y x"
proof -
  obtain kx ky where k: "kx \<in> set [0..<3]" "x' = x + kx - 1" "ky \<in> set [0..<3]" "y' = y + ky - 1"
    using assms unfolding near_offset by blast
  show ?thesis
    unfolding maxAlpha_window k(2,4)
    using k(3,1) by (rule window_max_ge_elem)
qed

lemma maxAlpha_ge_0: "0 \<le> maxAlpha d w y x"
  unfolding maxAlpha_window by (rule window_max_ge_init)

lemma maxAlpha_le:
  assumes "0 \<le> c" "\<And>x' y'. near x x' \<Longrightarrow> near y y' \<Longrightarrow> alphaAt d w x' y' \<le> c"
  shows "maxAlpha d w y x \<le> c"
  unfolding maxAlpha_window
proof (intro window_max_le assms(1))
  fix ky kx :: nat assume "ky \<in> set [0..<3]" "kx \<in> set [0..<3]"
  then have "near x (x + kx - 1)" "near y (y + ky - 1)"
    unfolding near_offset by blast+
  then show "alphaAt d w (x + kx - 1) (y + ky - 1) \<le> c" by (rule assms(2))
qed

lemma maxAlpha_le_255: "maxAlpha d w y x \<le> 255"
  by (intro maxAlpha_le) (simp_all add: alphaAt_range)

lemma uint_clamp_store_int: "0 \<le> n \<Longrightarrow> n \<le> 255 \<Longrightarrow> uint (clamp_store_int n) = n"
  by (simp add: clamp_store_int_def uint_word_of_int take_bit_int_eq_self)

lemma interior_in_image: "interior w h x y \<Longrightarrow> x < w \<and> y < h"
  by (auto simp: interior_def)

lemma interior_near_in_image:
  "interior w h x y \<Longrightarrow> near x x' \<Longrightarrow> near y y' \<Longrightarrow> x' < w \<and> y' < h"
  unfolding interior_def near_def by arith

lemma alphaAt_erosion:
  assumes "length d = w * h * 4" "x < w" "y < h"
  shows "alphaAt (erosion d w h) w x y = (if interior w h x y then minAlpha d w y x else 0)"
  using assms
  by (simp add: alphaAt_def erosion_alpha_interior erosion_alpha_border
      uint_clamp_store_int minAlpha_ge_0 minAlpha_le_255)

lemma alphaAt_dilation:
  assumes "length e = w * h * 4" "x < w" "y < h"
  shows "alphaAt (dilation e w h) w x y =
           (if interior w h x y then maxAlpha e w y x else alphaAt e w x y)"
  using assms
  by (simp add: alphaAt_def dilation_alpha_interior dilation_alpha_border
      uint_clamp_store_int maxAlpha_ge_0 maxAlpha_le_255)

text \<open>The opened alpha field never exceeds the input alpha.\<close>

lemma opening_anti_extensive:
  assumes len: "length d = w * h * 4" and x: "x < w" and y: "y < h"
  shows "alphaAt (dilation (erosion d w h) w h) w x y \<le> alphaAt d w x y"
proof (cases "interior w h x y")
  case True
  have "maxAlpha (erosion d w h) w y x \<le> alphaAt d w x y"
  proof (intro maxAlpha_le)
    show "0 \<le> alphaAt d w x y" by (rule alphaAt_range)
    fix x' y' assume n: "near x x'" "near y y'"
    then have in_img: "x' < w" "y' < h" using interior_near_in_image [OF True] by blast+
    show "alphaAt (erosion d w h) w x' y' \<le> alphaAt d w x y"
    proof (cases "interior w h x' y'")
      case True
      then show ?thesis
        using minAlpha_le [OF near_sym [OF n(1)] near_sym [OF n(2)], of d w]
        by (simp add: alphaAt_erosion len in_img)
    next
      case False
      then show ?thesis by (simp add: alphaAt_erosion len in_img alphaAt_range)
    qed
  qed
  then show ?thesis using True by (simp add: alphaAt_dilation length_erosion len x y)
next
  case False
  then show ?thesis
    by (simp add: alphaAt_dilation alphaAt_erosion length_erosion len x y alphaAt_range)
qed

text \<open>On a buffer whose border alpha is zero, eroding the opened field gives the
  eroded field again.\<close>

lemma erosion_of_opening:
  assumes len: "length d = w * h * 4" and x: "x < w" and y: "y < h"
    and border: "\<And>x y. x < w \<Longrightarrow> y < h \<Longrightarrow> \<not> interior w h x y \<Longrightarrow> alphaAt d w x y = 0"
  shows "alphaAt (erosion (dilation (erosion d w h) w h) w h) w x y = alphaAt (erosion d w h) w x y"
proof (cases "interior w h x y")
  case False
  then show ?thesis
    by (simp add: alphaAt_erosion length_dilation length_erosion len x y)
next
  case True
  let ?E = "erosion d w h"
  let ?G = "dilation ?E w h"
  have "minAlpha ?G w y x \<le> minAlpha d w y x"
  proof (intro minAlpha_ge)
    show "minAlpha ?G w y x \<le> 255" by (rule minAlpha_le_255)
    fix x' y' assume n: "near x x'" "near y y'"
    then have in_img: "x' < w" "y' < h" using interior_near_in_image [OF True] by blast+
    have "minAlpha ?G w y x \<le> alphaAt ?G w x' y'" using n by (rule minAlpha_le)
    also have "\<dots> \<le> alphaAt d w x' y'" using len in_img by (rule opening_anti_extensive)
    finally show "minAlpha ?G w y x \<le> alphaAt d w x' y'" .
  qed
  moreover have "minAlpha d w y x \<le> minAlpha ?G w y x"
  proof (intro minAlpha_ge)
    show "minAlpha d w y x \<le> 255" by (rule minAlpha_le_255)
    fix x' y' assume n: "near x x'" "near y y'"
    then have in_img: "x' < w" "y' < h" using interior_near_in_image [OF True] by blast+
    show "minAlpha d w y x \<le> alphaAt ?G w x' y'"
    proof (cases "interior w h x' y'")
      case True
      have "alphaAt ?E w x y \<le> maxAlpha ?E w y' x'"
        using near_sym [OF n(1)] near_sym [OF n(2)] by (rule maxAlpha_ge)
      then show ?thesis
        using True \<open>interior w h x y\<close>
        by (simp add: alphaAt_dilation alphaAt_erosion length_erosion len in_img x y)
    next
      case False
      have "minAlpha d w y x \<le> alphaAt d w x' y'" using n by (rule minAlpha_le)
      also have "\<dots> = 0" using in_img False by (rule border)
      finally show ?thesis
        using False by (simp add: alphaAt_dilation alphaAt_erosion length_erosion len in_img)
    qed
  qed
  ultimately show ?thesis
    using True by (simp add: alphaAt_erosion length_dilation length_erosion len x y)
qed

lemma maxAlpha_cong:
  assumes "\<And>x' y'. near x x' \<Longrightarrow> near y y' \<Longrightarrow> alphaAt d w x' y' = alphaAt e w x' y'"
  shows "maxAlpha d w y x = maxAlpha e w y x"
  unfolding maxAlpha_window
proof (intro window_fold_cong)
  fix ky kx :: nat and m :: int assume "ky \<in> set [0..<3]" "kx \<in> set [0..<3]"
  then have "near x (x + kx - 1)" "near y (y + ky - 1)"
    unfolding near_offset by blast+
  then show "max m (alphaAt d w (x + kx - 1) (y + ky - 1)) = max m (alphaAt e w (x + kx - 1) (y + ky - 1))"
    by (simp add: assms)
qed

lemma index_decompose:
  assumes "0 < w" "j < w * h * 4"
  obtains x y c where "x < w" "y < h" "c < 4" "j = pixelIndex w y x + c"
proof -
  define q where "q = j div 4"
  have q: "q < w * h" using assms(2) unfolding q_def by arith
  have "q div w < h" using q assms(1) by (simp add: less_mult_imp_div_less mult.commute)
  moreover have "q mod w < w" using assms(1) by simp
  moreover have "j mod 4 < 4" by simp
  moreover have "j = pixelIndex w (q div w) (q mod w) + j mod 4"
    by (simp add: pixelIndex_def q_def)
  ultimately show ?thesis using that by blast
qed

lemma opening_idempotent_data:
  assumes len: "length d = w * h * 4" and w: "0 < w"
    and border: "\<And>x y. x < w \<Longrightarrow> y < h \<Longrightarrow> \<not> interior w h x y \<Longrightarrow> alphaAt d w x y = 0"
  shows "dilation (erosion (dilation (erosion d w h) w h) w h) w h = dilation (erosion d w h) w h"
proof (intro nth_equalityI)
  let ?E = "erosion d w h"
  let ?G = "dilation ?E w h"
  let ?E2 = "erosion ?G w h"
  show "length (dilation ?E2 w h) = length ?G"
    by (simp add: length_dilation length_erosion)
  fix j assume "j < length (dilation ?E2 w h)"
  then have j: "j < w * h * 4" by (simp add: length_dilation length_erosion len)
  obtain x y c where xy: "x < w" "y < h" "c < 4" "j = pixelIndex w y x + c"
    using index_decompose [OF w j] by blast
  show "dilation ?E2 w h ! j = ?G ! j"
  proof (cases "c = 3")
    case False
    then have m: "j mod 4 \<noteq> 3"
      using xy(3,4) unfolding pixelIndex_def by arith
    have jG: "j < length ?G" using j by (simp add: length_dilation length_erosion len)
    have "dilation ?E2 w h ! j = ?E2 ! j" using m by (rule dilation_rgb)
    also have "\<dots> = ?G ! j" using jG m by (rule erosion_rgb)
    finally show ?thesis .
  next
    case True
    show ?thesis
    proof (cases "interior w h x y")
      case False
      have "dilation ?E2 w h ! j = ?E2 ! j"
        using True xy False by (simp add: dilation_alpha_border)
      also have "\<dots> = 0"
        using True xy False by (simp add: erosion_alpha_border length_dilation length_erosion len)
      also have "0 = ?E ! j"
        using True xy False by (simp add: erosion_alpha_border len)
      also have "\<dots> = ?G ! j"
        using True xy False by (simp add: dilation_alpha_border)
      finally show ?thesis .
    next
      case int: True
      have "maxAlpha ?E2 w y x = maxAlpha ?E w y x"
      proof (intro maxAlpha_cong)
        fix x' y' assume n: "near x x'" "near y y'"
        then have "x' < w" "y' < h" using interior_near_in_image [OF int] by blast+
        then show "alphaAt ?E2 w x' y' = alphaAt ?E w x' y'"
          using len border by (intro erosion_of_opening) simp_all
      qed
      then show ?thesis
        using True xy int
        by (simp add: dilation_alpha_interior length_dilation length_erosion len)
    qed
  qed
qed

section \<open>The opening on whole images\<close>

lemma valid_morphologicalOperations:
  "valid_image img \<Longrightarrow> valid_image (morphologicalOperations img)"
  by (simp add: valid_image_def morphologicalOperations_def length_dilation length_erosion)

lemma morphologicalOperations_rgb:
  assumes "j < length (data img)" "j mod 4 \<noteq> 3"
  shows "data (morphologicalOperations img) ! j = data img ! j"
  using assms by (simp add: morphologicalOperations_def dilation_rgb erosion_rgb)

lemma morphologicalOperations_border_alpha:
  assumes "valid_image img" "x < width img" "y < height img"
    "\<not> interior (width img) (height img) x y"
  shows "data (morphologicalOperations img) ! (pixelIndex (width img) y x + 3) = 0"
  using assms
  by (simp add: morphologicalOperations_def valid_image_def dilation_alpha_border
      erosion_alpha_border)

text \<open>
  Claim C1 (border alpha retained by the opening). The RGB samples do pass through
  (\<open>morphologicalOperations_rgb\<close>), but the erosion pass writes into a zeroed array
  that only received the RGB samples, so the alpha of every border pixel comes out 0
  (\<open>morphologicalOperations_border_alpha\<close>) instead of the input alpha. On the fully
  opaque 3x3 image the eight border pixels become transparent and only the centre keeps
  alpha 255.
\<close>

theorem morphologicalOperations_opaque3:
  "data opaque3 = concat (replicate 9 [10, 20, 30, 255]) \<and>
   data (morphologicalOperations opaque3) =
     [10, 20, 30, 0,  10, 20, 30, 0,    10, 20, 30, 0,
      10, 20, 30, 0,  10, 20, 30, 255,  10, 20, 30, 0,
      10, 20, 30, 0,  10, 20, 30, 0,    10, 20, 30, 0]"
  by code_simp

lemma near_upt: "b \<in> set [a - 1..<a + 2] \<longleftrightarrow> near a b"
  unfolding near_def by auto

lemma ball_window: "(\<forall>b \<in> set [a - 1..<a + 2]. P b) \<longleftrightarrow> (\<forall>b. near a b \<longrightarrow> P b)"
  using near_upt [of _ a] by blast

lemma bex_window: "(\<exists>b \<in> set [a - 1..<a + 2]. P b) \<longleftrightarrow> (\<exists>b. near a b \<and> P b)"
  using near_upt [of _ a] by blast

lemma full_window_iff:
  "full_window d w h cx cy a \<longleftrightarrow>
     interior w h cx cy \<and> (\<forall>x' y'. near cx x' \<longrightarrow> near cy y' \<longrightarrow> a \<le> alphaAt d w x' y')"
  unfolding full_window_def list_all_iff ball_window by blast

lemma covered_iff:
  "covered d w h x y \<longleftrightarrow>
     (\<exists>cx cy. near x cx \<and> near y cy \<and> full_window d w h cx cy (alphaAt d w x y))"
  unfolding covered_def list_ex_iff bex_window by blast

lemma no_thin_featuresD:
  assumes "no_thin_features img" "x < width img" "y < height img"
  shows "alphaAt (data img) (width img) x y = 0 \<or> covered (data img) (width img) (height img) x y"
  using assms unfolding no_thin_features_def list_all_iff by simp

text \<open>Where a pixel is covered by a full window, the opened field is not below the input.\<close>

lemma opening_extensive_where_covered:
  assumes len: "length d = w * h * 4" and int: "interior w h x y"
    and cov: "alphaAt d w x y = 0 \<or> covered d w h x y"
  shows "alphaAt d w x y \<le> alphaAt (dilation (erosion d w h) w h) w x y"
proof -
  have xy: "x < w" "y < h" using int by (auto simp: interior_def)
  have G: "alphaAt (dilation (erosion d w h) w h) w x y = maxAlpha (erosion d w h) w y x"
    using int by (simp add: alphaAt_dilation length_erosion len xy)
  show ?thesis
  proof (cases "alphaAt d w x y = 0")
    case True
    then show ?thesis unfolding G by (simp add: maxAlpha_ge_0)
  next
    case False
    then obtain cx cy where c: "near x cx" "near y cy"
      and fw: "full_window d w h cx cy (alphaAt d w x y)"
      using cov unfolding covered_iff by blast
    have cint: "interior w h cx cy"
      and win: "\<And>x' y'. near cx x' \<Longrightarrow> near cy y' \<Longrightarrow> alphaAt d w x y \<le> alphaAt d w x' y'"
      using fw unfolding full_window_iff by blast+
    have cin: "cx < w" "cy < h" using cint by (auto simp: interior_def)
    have "alphaAt d w x y \<le> minAlpha d w cy cx"
      using win by (intro minAlpha_ge) (simp_all add: alphaAt_range)
    also have "\<dots> = alphaAt (erosion d w h) w cx cy"
      using cint by (simp add: alphaAt_erosion len cin)
    also have "\<dots> \<le> maxAlpha (erosion d w h) w y x"
      using c by (rule maxAlpha_ge)
    finally show ?thesis unfolding G .
  qed
qed

lemma alphaAt_eq_imp: "alphaAt d w x y = alphaAt e w x y \<Longrightarrow>
  d ! (pixelIndex w y x + 3) = e ! (pixelIndex w y x + 3)"
  by (simp add: alphaAt_def word_uint_eq_iff)


lemma opening_fixed_data:
  assumes len: "length d = w * h * 4" and w: "0 < w"
    and border: "\<And>x y. x < w \<Longrightarrow> y < h \<Longrightarrow> \<not> interior w h x y \<Longrightarrow> alphaAt d w x y = 0"
    and cov: "\<And>x y. x < w \<Longrightarrow> y < h \<Longrightarrow> alphaAt d w x y = 0 \<or> covered d w h x y"
  shows "dilation (erosion d w h) w h = d"
proof (intro nth_equalityI)
  let ?G = "dilation (erosion d w h) w h"
  show "length ?G = length d" by (simp add: length_dilation length_erosion)
  fix j assume "j < length ?G"
  then have j: "j < w * h * 4" by (simp add: length_dilation length_erosion len)
  obtain x y c where xy: "x < w" "y < h" "c < 4" "j = pixelIndex w y x + c"
    using index_decompose [OF w j] by blast
  show "?G ! j = d ! j"
  proof (cases "c = 3")
    case False
    then have m: "j mod 4 \<noteq> 3"
      using xy(3,4) unfolding pixelIndex_def by arith
    have "?G ! j = erosion d w h ! j" using m by (rule dilation_rgb)
    also have "\<dots> = d ! j" using j m by (intro erosion_rgb) (simp add: len)
    finally show ?thesis .
  next
    case True
    have "alphaAt ?G w x y = alphaAt d w x y"
    proof (cases "interior w h x y")
      case False
      then show ?thesis
        using border [OF xy(1,2)]
        by (simp add: alphaAt_dilation alphaAt_erosion length_erosion len xy)
    next
      case int: True
      have "alphaAt ?G w x y \<le> alphaAt d w x y"
        using len xy(1,2) by (rule opening_anti_extensive)
      moreover have "alphaAt d w x y \<le> alphaAt ?G w x y"
        using len int cov [OF xy(1,2)] by (rule opening_extensive_where_covered)
      ultimately show ?thesis by simp
    qed
    then show ?thesis unfolding xy(4) True by (rule alphaAt_eq_imp)
  qed
qed

text \<open>
  Without a condition on the mask, an opened buffer need not be a fixed point: the
  opening clears the border, so what it returns can hold a feature thinner than the
  structuring element (for the opaque 3x3 image, the centre pixel alone), which the next
  opening removes. From the second opening on the buffer no longer changes.
\<close>

lemma thin_features_reopened:
  "morphologicalOperations (morphologicalOperations opaque3) \<noteq> morphologicalOperations opaque3"
  by code_simp

lemma opening_stable_from_second:
  assumes "valid_image Q" and "P = morphologicalOperations Q"
  shows "morphologicalOperations (morphologicalOperations P) = morphologicalOperations P"
proof -
  let ?w = "width Q" and ?h = "height Q"
  have len: "length (data Q) = ?w * ?h * 4" and w: "0 < ?w"
    using assms(1) by (simp_all add: valid_image_def)
  have P: "data P = dilation (erosion (data Q) ?w ?h) ?w ?h" "width P = ?w" "height P = ?h"
    using assms(2) by (simp_all add: morphologicalOperations_def)
  have lenP: "length (data P) = ?w * ?h * 4"
    by (simp add: P length_dilation length_erosion len)
  have border: "alphaAt (data P) ?w x y = 0" if "x < ?w" "y < ?h" "\<not> interior ?w ?h x y" for x y
    using that by (simp add: P alphaAt_dilation alphaAt_erosion length_erosion len)
  have "dilation (erosion (dilation (erosion (data P) ?w ?h) ?w ?h) ?w ?h) ?w ?h
          = dilation (erosion (data P) ?w ?h) ?w ?h"
    using lenP w border by (rule opening_idempotent_data)
  then show ?thesis
    by (simp add: morphologicalOperations_def P)
qed

text \<open>
  Claim C3 (idempotence on already-opened masks). For every buffer \<open>P\<close> that is the
  result of one opening of a valid image and has no feature thinner than the 3x3
  structuring element, one more opening returns \<open>P\<close> itself, so that two openings
  of \<open>P\<close> give the same buffer as one.
\<close>

theorem opening_fixes_opened_mask:
  assumes "valid_image Q" and "P = morphologicalOperations Q" and "no_thin_features P"
  shows "morphologicalOperations P = P \<and>
         morphologicalOperations (morphologicalOperations P) = morphologicalOperations P"
proof -
  let ?w = "width Q" and ?h = "height Q"
  have len: "length (data Q) = ?w * ?h * 4" and w: "0 < ?w"
    using assms(1) by (simp_all add: valid_image_def)
  have P: "P = \<lparr>data = data P, width = ?w, height = ?h\<rparr>"
    and dP: "data P = dilation (erosion (data Q) ?w ?h) ?w ?h"
    and wP: "width P = ?w" and hP: "height P = ?h"
    using assms(2) by (simp_all add: morphologicalOperations_def)
  have lenP: "length (data P) = ?w * ?h * 4"
    by (simp add: dP length_dilation length_erosion len)
  have border: "alphaAt (data P) ?w x y = 0" if "x < ?w" "y < ?h" "\<not> interior ?w ?h x y" for x y
    using that by (simp add: dP alphaAt_dilation alphaAt_erosion length_erosion len)
  have cov: "alphaAt (data P) ?w x y = 0 \<or> covered (data P) ?w ?h x y" if "x < ?w" "y < ?h" for x y
    using no_thin_featuresD [OF assms(3), of x y] that by (simp add: wP hP)
  have "dilation (erosion (data P) ?w ?h) ?w ?h = data P"
    using lenP w border cov by (rule opening_fixed_data)
  then have "morphologicalOperations P = \<lparr>data = data P, width = ?w, height = ?h\<rparr>"
    by (simp add: morphologicalOperations_def wP hP)
  then have "morphologicalOperations P = P" using P by simp
  then show ?thesis by simp
qed

theorem opening_fixes_opened_mask_witness:
  "valid_image opaque5 \<and> block5 = morphologicalOperations opaque5 \<and> no_thin_features block5 \<and>
   morphologicalOperations block5 = block5"
proof -
  have v: "valid_image opaque5" by code_simp
  have p: "block5 = morphologicalOperations opaque5" by code_simp
  have n: "no_thin_features block5" by code_simp
  show ?thesis
    using v p n opening_fixes_opened_mask [OF v p n] by simp
qed

section \<open>Colour segmentation\<close>

lemma sqrt_lt_80: "0 \<le> x \<Longrightarrow> sqrt x < 80 \<longleftrightarrow> x < 6400"
proof -
  have "sqrt 6400 = 80" by (rule real_sqrt_unique) simp_all
  then show ?thesis using real_sqrt_less_iff [of x 6400] by simp
qed

lemma colorDistance_lt_80: "colorDistance k b < 80 \<longleftrightarrow> sqDistance k b < 6400"
proof -
  obtain r g b' where k: "k = (r, g, b')" by (cases k)
  obtain bgR bgG bgB where b: "b = (bgR, bgG, bgB)" by (cases b)
  have "real_of_int (sqDistance k b) = (real r - real bgR)\<^sup>2 + (real g - real bgG)\<^sup>2 + (real b' - real bgB)\<^sup>2"
    by (simp add: sqDistance_def k b)
  moreover have "0 \<le> (real r - real bgR)\<^sup>2 + (real g - real bgG)\<^sup>2 + (real b' - real bgB)\<^sup>2" by simp
  ultimately have "colorDistance k b < 80 \<longleftrightarrow> real_of_int (sqDistance k b) < 6400"
    by (simp add: k b sqrt_lt_80)
  also have "\<dots> \<longleftrightarrow> sqDistance k b < 6400" by linarith
  finally show ?thesis .
qed

lemma isBackground_code [code]:
  "isBackground bg colorKey \<longleftrightarrow>
     (if colorKey \<in> set bg then True else list_ex (\<lambda>bgColor. sqDistance colorKey bgColor < 6400) bg)"
  by (simp add: isBackground_def colorDistance_lt_80)

lemma length_seg_px: "length (seg_px d bg i p) = length p"
  by (simp add: seg_px_def)

lemma seg_px_outside: "j < i \<or> i + 4 \<le> j \<Longrightarrow> seg_px d bg i p ! j = p ! j"
  by (auto simp: seg_px_def)

lemma seg_px_rgb: "j < length p \<Longrightarrow> i \<le> j \<Longrightarrow> j < i + 3 \<Longrightarrow> seg_px d bg i p ! j = d ! j"
proof -
  assume a: "j < length p" "i \<le> j" "j < i + 3"
  then have "j = i \<or> j = i + 1 \<or> j = i + 2" by arith
  then show ?thesis using a(1) by (auto simp: seg_px_def nth_list_update)
qed

lemma seg_px_alpha:
  "i + 3 < length p \<Longrightarrow>
     seg_px d bg i p ! (i + 3) = (if isBackground bg (colorKeyAt d i) then 0 else 255)"
  by (simp add: seg_px_def)

lemma seg_loop_length:
  "length (fold (seg_px d bg) ks p) = length p"
  by (intro length_fold_writes) (simp add: length_seg_px)

lemma seg_loop_nth:
  assumes "j < length d"
  shows "fold (seg_px d bg) (quads (length d)) (replicate (length d) 0) ! j =
           (if j mod 4 = 3 then (if isBackground bg (colorKeyAt d (j - 3)) then 0 else 255)
            else d ! j)"
    (is "?lhs = ?v")
proof -
  define k0 where "k0 = 4 * (j div 4)"
  have k0: "k0 \<in> set (quads (length d))"
    using assms by (simp add: set_quads k0_def)
  have range: "k0 \<le> j" "j < k0 + 4" unfolding k0_def by arith+
  have at_k0: "seg_px d bg k0 p ! j = ?v" if "length p = length d" for p
  proof (cases "j mod 4 = 3")
    case True
    then have j: "j = k0 + 3" unfolding k0_def by arith
    show ?thesis using that assms True by (simp add: j seg_px_alpha)
  next
    case False
    then have "j < k0 + 3" unfolding k0_def by arith
    then show ?thesis using False that assms range(1) by (simp add: seg_px_rgb)
  qed
  show ?thesis
  proof (intro nth_fold_written [where n = "length d" and ?k0.0 = k0])
    show "k0 \<in> set (quads (length d))" by (rule k0)
    show "seg_px d bg k0 p ! j = ?v" if "length p = length d" for p
      using that by (rule at_k0)
    show "seg_px d bg k p ! j = ?v"
      if "k \<in> set (quads (length d))" "length p = length d" "p ! j = ?v" for k p
    proof (cases "k = k0")
      case True
      then show ?thesis using at_k0 [OF that(2)] by simp
    next
      case False
      have "k mod 4 = 0" using that(1) by (simp add: set_quads)
      then have "j < k \<or> k + 4 \<le> j" using False unfolding k0_def by arith
      then show ?thesis using that(3) by (simp add: seg_px_outside)
    qed
    show "length (seg_px d bg k p) = length p" for k p by (rule length_seg_px)
    show "length (replicate (length d) (0 :: byte)) = length d" by simp
  qed
qed

lemma valid_colorSegmentation:
  "valid_image img \<Longrightarrow> valid_image (colorSegmentation img)"
  by (simp add: valid_image_def colorSegmentation_def Let_def seg_loop_length)

lemma pixelIndex_mod: "c < 4 \<Longrightarrow> (pixelIndex w y x + c) mod 4 = c"
  unfolding pixelIndex_def by arith

lemma set_backgroundColors_fold:
  "set (fold (\<lambda>color s. if color \<in> set s then s else s @ [color]) cs s) = set cs \<union> set s"
  by (induction cs arbitrary: s) auto

lemma distinct_backgroundColors_fold:
  "distinct s \<Longrightarrow> distinct (fold (\<lambda>color s. if color \<in> set s then s else s @ [color]) cs s)"
  by (induction cs arbitrary: s) auto

lemma length_backgroundColors_fold:
  "length (fold (\<lambda>color s. if color \<in> set s then s else s @ [color]) cs s) \<le> length cs + length s"
proof (induction cs arbitrary: s)
  case Nil
  show ?case by simp
next
  case (Cons c cs)
  show ?case using Cons.IH [of s] Cons.IH [of "s @ [c]"] by auto
qed

lemma set_backgroundColors: "set (backgroundColors d w h) = set (sortedEdgeColors d w h)"
  by (simp add: backgroundColors_def set_backgroundColors_fold)

lemma length_backgroundColors: "length (backgroundColors d w h) \<le> 3"
proof -
  have "length (backgroundColors d w h) \<le> length (sortedEdgeColors d w h)"
    using length_backgroundColors_fold [of "sortedEdgeColors d w h" "[]"]
    by (simp add: backgroundColors_def)
  also have "\<dots> \<le> 3" by (simp add: sortedEdgeColors_def)
  finally show ?thesis .
qed

text \<open>
  Claim C6 (the segmenter only alters alpha). For every valid image the output has the
  dimensions and the length of the input, and at every pixel the R, G and B samples are
  those of the input and the alpha sample is exactly 0 or exactly 255.
\<close>

theorem colorSegmentation_channels:
  assumes "valid_image img" "x < width img" "y < height img"
  shows "width (colorSegmentation img) = width img \<and>
         height (colorSegmentation img) = height img \<and>
         length (data (colorSegmentation img)) = length (data img) \<and>
         data (colorSegmentation img) ! (pixelIndex (width img) y x) =
           data img ! (pixelIndex (width img) y x) \<and>
         data (colorSegmentation img) ! (pixelIndex (width img) y x + 1) =
           data img ! (pixelIndex (width img) y x + 1) \<and>
         data (colorSegmentation img) ! (pixelIndex (width img) y x + 2) =
           data img ! (pixelIndex (width img) y x + 2) \<and>
         (data (colorSegmentation img) ! (pixelIndex (width img) y x + 3) = 0 \<or>
          data (colorSegmentation img) ! (pixelIndex (width img) y x + 3) = 255)"
proof -
  let ?w = "width img" and ?d = "data img"
  have len: "length ?d = ?w * height img * 4"
    using assms(1) by (simp add: valid_image_def)
  have in_range: "pixelIndex ?w y x + c < length ?d" if "c < 4" for c
    using pixelIndex_bound [OF assms(2,3) that] len by simp
  have nth: "data (colorSegmentation img) ! j =
      (if j mod 4 = 3
       then (if isBackground (backgroundColors ?d ?w (height img)) (colorKeyAt ?d (j - 3)) then 0 else 255)
       else ?d ! j)" if "j < length ?d" for j
    using that by (simp add: colorSegmentation_def Let_def seg_loop_nth)
  have rgb: "data (colorSegmentation img) ! (pixelIndex ?w y x + c) = ?d ! (pixelIndex ?w y x + c)"
    if "c < 3" for c
    using that in_range [of c] pixelIndex_mod [of c ?w y x] by (simp add: nth)
  have "data (colorSegmentation img) ! (pixelIndex ?w y x) = ?d ! (pixelIndex ?w y x)"
    using rgb [of 0] by simp
  moreover have "data (colorSegmentation img) ! (pixelIndex ?w y x + 1) = ?d ! (pixelIndex ?w y x + 1)"
    using rgb [of 1] by simp
  moreover have "data (colorSegmentation img) ! (pixelIndex ?w y x + 2) = ?d ! (pixelIndex ?w y x + 2)"
    using rgb [of 2] by simp
  moreover have "data (colorSegmentation img) ! (pixelIndex ?w y x + 3) = 0 \<or>
      data (colorSegmentation img) ! (pixelIndex ?w y x + 3) = 255"
    using in_range [of 3] by (simp add: nth pixelIndex_mod)
  ultimately show ?thesis
    by (simp add: colorSegmentation_def Let_def seg_loop_length)
qed

text \<open>
  Claim C2 (the classification rule), as the code has it. For every pixel of every valid
  image the output alpha is 0 if and only if the quantised colour of the pixel is one of
  the (at most three) most frequent quantised border colours, or the Euclidean distance
  between the \<^emph>\<open>quantised\<close> colour of the pixel and one of them is below 80; otherwise
  it is 255. The set the code tests against holds exactly the colours of
  \<open>sortedEdgeColors\<close> (\<open>set_backgroundColors\<close>).
\<close>

theorem colorSegmentation_alpha:
  assumes "valid_image img" "x < width img" "y < height img"
  shows "data (colorSegmentation img) ! (pixelIndex (width img) y x + 3) =
           (if colorKeyAt (data img) (pixelIndex (width img) y x)
                 \<in> set (sortedEdgeColors (data img) (width img) (height img)) \<or>
               (\<exists>bgColor \<in> set (sortedEdgeColors (data img) (width img) (height img)).
                  colorDistance (colorKeyAt (data img) (pixelIndex (width img) y x)) bgColor < 80)
            then 0 else 255)"
proof -
  let ?w = "width img" and ?d = "data img"
  have len: "length ?d = ?w * height img * 4"
    using assms(1) by (simp add: valid_image_def)
  have "pixelIndex ?w y x + 3 < length ?d"
    using pixelIndex_bound [OF assms(2,3), of 3] len by simp
  then have "data (colorSegmentation img) ! (pixelIndex ?w y x + 3) =
      (if isBackground (backgroundColors ?d ?w (height img)) (colorKeyAt ?d (pixelIndex ?w y x))
       then 0 else 255)"
    by (simp add: colorSegmentation_def Let_def seg_loop_nth pixelIndex_mod)
  then show ?thesis
    by (simp add: isBackground_def list_ex_iff set_backgroundColors)
qed

theorem colorSegmentation_channels_witness:
  "valid_image white3_centre \<and> 1 < width white3_centre \<and> 1 < height white3_centre \<and>
   data (colorSegmentation white3_centre) ! 16 = data white3_centre ! 16 \<and>
   data (colorSegmentation white3_centre) ! 17 = data white3_centre ! 17 \<and>
   data (colorSegmentation white3_centre) ! 18 = data white3_centre ! 18 \<and>
   (data (colorSegmentation white3_centre) ! 19 = 0 \<or>
    data (colorSegmentation white3_centre) ! 19 = 255)"
proof -
  have v: "valid_image white3_centre" by code_simp
  have x: "1 < width white3_centre" and y: "1 < height white3_centre"
    by (simp_all add: white3_centre_def)
  have i: "pixelIndex (width white3_centre) 1 1 = 16"
    by (simp add: white3_centre_def pixelIndex_def)
  show ?thesis
    using v x y colorSegmentation_channels [OF v x y] unfolding i by simp
qed

theorem colorSegmentation_alpha_witness:
  "valid_image white3_centre \<and> 1 < width white3_centre \<and> 1 < height white3_centre \<and>
   data (colorSegmentation white3_centre) ! (pixelIndex (width white3_centre) 1 1 + 3) =
     (if colorKeyAt (data white3_centre) (pixelIndex (width white3_centre) 1 1)
           \<in> set (sortedEdgeColors (data white3_centre) (width white3_centre) (height white3_centre)) \<or>
         (\<exists>bgColor \<in> set (sortedEdgeColors (data white3_centre) (width white3_centre) (height white3_centre)).
            colorDistance (colorKeyAt (data white3_centre) (pixelIndex (width white3_centre) 1 1)) bgColor < 80)
      then 0 else 255)"
proof -
  have v: "valid_image white3_centre" by code_simp
  have x: "1 < width white3_centre" and y: "1 < height white3_centre"
    by (simp_all add: white3_centre_def)
  show ?thesis
    using v x y colorSegmentation_alpha [OF v x y] by blast
qed

text \<open>
  The rule with the raw colour of the pixel, as claim C2 words it, fails on the 3x3 white
  image whose centre pixel is (159, 224, 224): the raw colour is at distance 65 from the
  only background bucket (224, 224, 224), so the worded rule makes the pixel background,
  but its quantised colour (128, 224, 224) is at distance 96 and the code keeps it
  (alpha 255).
\<close>

theorem colorSegmentation_raw_distance_counterexample:
  "spec_isBackground (backgroundColors (data white3_centre) 3 3) (data white3_centre)
     (pixelIndex 3 1 1) \<and>
   data (colorSegmentation white3_centre) ! (pixelIndex 3 1 1 + 3) = 255"
proof -
  have bg: "backgroundColors (data white3_centre) 3 3 = [(224, 224, 224)]" by code_simp
  have i: "pixelIndex 3 1 1 = 16" by (simp add: pixelIndex_def)
  have px: "unat (data white3_centre ! 16) = 159" "unat (data white3_centre ! 17) = 224"
    "unat (data white3_centre ! 18) = 224" by code_simp+
  have "sqDistance (159, 224, 224) (224, 224, 224) < 6400" by (simp add: sqDistance_def)
  then have "rawDistance (data white3_centre) 16 (224, 224, 224) < 80"
    unfolding rawDistance_def colorDistance_lt_80 by (simp add: px)
  then have "spec_isBackground (backgroundColors (data white3_centre) 3 3) (data white3_centre) 16"
    by (simp add: spec_isBackground_def bg)
  moreover have "data (colorSegmentation white3_centre) ! 19 = 255" by code_simp
  ultimately show ?thesis unfolding i by simp
qed

text \<open>
  Claim C8 (the 4x4 uniform white image). All 16 pixels quantise to (224, 224, 224); the
  border histogram holds that bucket alone, with the 16 border samples; it is the only
  background colour; every pixel is classified as background; and the output alpha is 0
  at all 16 pixels, the RGB samples staying 255.
\<close>

theorem colorSegmentation_white4:
  "map (colorKeyAt (data white4)) (quads (length (data white4))) = replicate 16 (224, 224, 224) \<and>
   edgeColorCounts (data white4) (width white4) (height white4) = [((224, 224, 224), 16)] \<and>
   sortedEdgeColors (data white4) (width white4) (height white4) = [(224, 224, 224)] \<and>
   map (\<lambda>i. isBackground (backgroundColors (data white4) (width white4) (height white4))
               (colorKeyAt (data white4) i)) (quads (length (data white4))) = replicate 16 True \<and>
   data (colorSegmentation white4) = concat (replicate 16 [255, 255, 255, 0])"
  by code_simp

section \<open>Border sampling\<close>

lemma fold_push: "fold (\<lambda>x acc. acc @ f x) xs acc = acc @ concat (map f xs)"
  by (induction xs arbitrary: acc) simp_all

lemma rowLoop_eq:
  "rowLoop w h acc = acc @ concat (map (\<lambda>x. [0 * w + x] @ [(h - 1) * w + x]) [0..<w])"
  unfolding rowLoop_def by (rule fold_push)

lemma colLoop_eq:
  "colLoop w h acc = acc @ concat (map (\<lambda>y. [y * w + 0] @ [y * w + (w - 1)]) [0..<h])"
  unfolding colLoop_def by (rule fold_push)

lemma edgePixels_eq: "edgePixels w h = rowLoop w h [] @ colLoop w h []"
  by (simp add: edgePixels_def rowLoop_eq colLoop_eq)

lemma count_list_pairs:
  "count_list (concat (map (\<lambda>x. [a x] @ [b x]) xs)) c =
     count_list (map a xs) c + count_list (map b xs) c"
  by (induction xs) auto

lemma count_list_distinct: "distinct xs \<Longrightarrow> count_list xs c = (if c \<in> set xs then 1 else 0)"
  by (induction xs) auto

lemma count_list_inj_upt:
  assumes "inj_on f {0..<n}"
  shows "count_list (map f [0..<n]) c = (if c \<in> f ` {0..<n} then 1 else 0)"
proof -
  have "distinct (map f [0..<n])" using assms by (simp add: distinct_map)
  then show ?thesis by (simp add: count_list_distinct)
qed

lemma count_rowLoop:
  "count_list (rowLoop w h []) c =
     (if c < w then 1 else 0) + (if (h - 1) * w \<le> c \<and> c < (h - 1) * w + w then 1 else 0)"
proof -
  have top: "count_list (map (\<lambda>x. 0 * w + x) [0..<w]) c = (if c < w then 1 else 0)"
    using count_list_inj_upt [of "\<lambda>x. 0 * w + x" w c] by (auto simp: inj_on_def)
  have "(\<lambda>x. (h - 1) * w + x) ` {0..<w} = {(h - 1) * w..<(h - 1) * w + w}"
    by (auto simp: image_iff)
  then have bottom: "count_list (map (\<lambda>x. (h - 1) * w + x) [0..<w]) c =
      (if (h - 1) * w \<le> c \<and> c < (h - 1) * w + w then 1 else 0)"
    using count_list_inj_upt [of "\<lambda>x. (h - 1) * w + x" w c] by (auto simp: inj_on_def)
  show ?thesis
    unfolding rowLoop_eq append_Nil count_list_pairs top bottom ..
qed

lemma count_colLoop:
  assumes "0 < w"
  shows "count_list (colLoop w h []) c =
     (if c mod w = 0 \<and> c div w < h then 1 else 0) +
     (if c mod w = w - 1 \<and> c div w < h then 1 else 0)"
proof -
  have inj_l: "inj_on (\<lambda>y. y * w + 0) {0..<h}" using assms by (auto simp: inj_on_def)
  have inj_r: "inj_on (\<lambda>y. y * w + (w - 1)) {0..<h}"
  proof (rule inj_onI)
    fix x y assume "x * w + (w - 1) = y * w + (w - 1)"
    then have "x * w = y * w" by (rule add_right_imp_eq)
    then show "x = y" using assms by simp
  qed
  have l: "c \<in> (\<lambda>y. y * w + 0) ` {0..<h} \<longleftrightarrow> c mod w = 0 \<and> c div w < h"
  proof
    assume "c \<in> (\<lambda>y. y * w + 0) ` {0..<h}"
    then obtain y where "y < h" "c = y * w" by auto
    then show "c mod w = 0 \<and> c div w < h" using assms by simp
  next
    assume a: "c mod w = 0 \<and> c div w < h"
    then have "c = (c div w) * w + 0" by (simp add: mod_eq_0_iff_dvd)
    then show "c \<in> (\<lambda>y. y * w + 0) ` {0..<h}" using a by (metis atLeastLessThan_iff zero_le imageI)
  qed
  have r: "c \<in> (\<lambda>y. y * w + (w - 1)) ` {0..<h} \<longleftrightarrow> c mod w = w - 1 \<and> c div w < h"
  proof -
    define e where "e = w - 1"
    have e: "e < w" using assms by (simp add: e_def)
    have "c \<in> (\<lambda>y. y * w + e) ` {0..<h} \<longleftrightarrow> c mod w = e \<and> c div w < h"
    proof
      assume "c \<in> (\<lambda>y. y * w + e) ` {0..<h}"
      then obtain y where "y < h" "c = y * w + e" by auto
      then show "c mod w = e \<and> c div w < h" using e by simp
    next
      assume a: "c mod w = e \<and> c div w < h"
      have "c = (c div w) * w + c mod w" by simp
      then have "c = (c div w) * w + e" using a by simp
      then show "c \<in> (\<lambda>y. y * w + e) ` {0..<h}"
        using a by (metis atLeastLessThan_iff zero_le imageI)
    qed
    then show ?thesis by (simp only: e_def)
  qed
  show ?thesis
    unfolding colLoop_eq append_Nil count_list_pairs
      count_list_inj_upt [OF inj_l] count_list_inj_upt [OF inj_r] l r ..
qed

lemma count_edgePixels:
  "count_list (edgePixels w h) c = count_list (rowLoop w h []) c + count_list (colLoop w h []) c"
  by (simp add: edgePixels_eq)

lemma count_rowLoop_le: "count_list (rowLoop w h []) i \<le> 2"
  by (simp add: count_rowLoop)

lemma count_colLoop_le: "0 < w \<Longrightarrow> count_list (colLoop w h []) i \<le> 2"
  by (simp add: count_colLoop)

lemma corner_counts:
  assumes w: "1 \<le> w" and h: "1 \<le> h" and c: "c \<in> set (corners w h)"
  shows "count_list (rowLoop w h []) c = (if h = 1 then 2 else 1)"
    and "count_list (colLoop w h []) c = (if w = 1 then 2 else 1)"
proof -
  define e where "e = w - 1"
  define g where "g = h - 1"
  have e: "e < w" and g: "g < h" using w h by (simp_all add: e_def g_def)
  have w0: "0 < w" using w by simp
  define b where "b = g * w"
  have cases: "c = 0 \<or> c = e \<or> c = b \<or> c = b + e"
    using c by (auto simp: corners_def e_def g_def b_def)
  have md: "b mod w = 0" "b div w = g" "(b + e) mod w = e"
    "(b + e) div w = g" "e mod w = e" "e div w = 0"
    using e by (simp_all add: b_def)
  have row: "count_list (rowLoop w h []) c =
      (if c < w then 1 else 0) + (if b \<le> c \<and> c < b + w then 1 else 0)"
    unfolding g_def b_def by (rule count_rowLoop)
  have col: "count_list (colLoop w h []) c =
      (if c mod w = 0 \<and> c div w < h then 1 else 0) + (if c mod w = e \<and> c div w < h then 1 else 0)"
    unfolding e_def using w0 by (rule count_colLoop)
  show "count_list (rowLoop w h []) c = (if h = 1 then 2 else 1)"
  proof (cases "h = 1")
    case True
    then have "b = 0" by (simp add: b_def g_def)
    then show ?thesis unfolding row using cases e True by auto
  next
    case False
    then have "1 \<le> g" using h by (simp add: g_def)
    then have "w \<le> b" by (simp add: b_def)
    then show ?thesis unfolding row using cases e False by auto
  qed
  show "count_list (colLoop w h []) c = (if w = 1 then 2 else 1)"
  proof (cases "w = 1")
    case True
    then have "e = 0" by (simp add: e_def)
    then show ?thesis unfolding col using cases g h True md by auto
  next
    case False
    then have "1 \<le> e" using w by (simp add: e_def)
    then show ?thesis unfolding col using cases g h w0 False md by auto
  qed
qed

lemma map_of_bump:
  "map_of (map (\<lambda>(k', c'). if k' = k then (k', c' + 1) else (k', c')) counts) q =
     (if q = k then map_option (\<lambda>c. c + 1) (map_of counts k) else map_of counts q)"
  by (induction counts) auto

lemma map_of_count_color:
  "map_of (count_color k counts) q =
     (if q = k then Some (case map_of counts k of None \<Rightarrow> 1 | Some c \<Rightarrow> c + 1)
      else map_of counts q)"
  by (auto simp: count_color_def map_of_bump map_add_def split: option.splits)

lemma map_of_histogram:
  "map_of (fold (\<lambda>p counts. count_color (key p) counts) ps counts) k =
     (case map_of counts k of
        None \<Rightarrow> if count_list (map key ps) k = 0 then None else Some (count_list (map key ps) k)
      | Some c \<Rightarrow> Some (c + count_list (map key ps) k))"
proof (induction ps arbitrary: counts)
  case Nil
  show ?case by (simp split: option.splits)
next
  case (Cons p ps)
  show ?case
    by (simp add: Cons.IH map_of_count_color split: option.splits)
qed

lemma edgeColorCounts_weight:
  "map_of (edgeColorCounts d w h) k =
     (if count_list (map (\<lambda>p. colorKeyAt d (p * 4)) (edgePixels w h)) k = 0 then None
      else Some (count_list (map (\<lambda>p. colorKeyAt d (p * 4)) (edgePixels w h)) k))"
  unfolding edgeColorCounts_def by (simp add: map_of_histogram)

text \<open>
  Claim C10 (corners are sampled twice). For an image of width and height at least 1,
  every corner pixel is pushed by the row loop and by the column loop: once by each when
  the image has at least two rows and two columns, which makes exactly two samples of the
  corner; with a single row the row loop pushes it twice, and with a single column the
  column loop does, so the corner is sampled three times, or four times in the 1x1
  image. No pixel is ever sampled more than four times. Every sample adds one to the
  border-histogram count of its quantised colour, so a corner weighs double there.
\<close>

theorem corner_sampled_twice:
  assumes "1 \<le> w" "1 \<le> h" "c \<in> set (corners w h)"
  shows "count_list (rowLoop w h []) c = (if h = 1 then 2 else 1) \<and>
         count_list (colLoop w h []) c = (if w = 1 then 2 else 1) \<and>
         count_list (edgePixels w h) c =
           count_list (rowLoop w h []) c + count_list (colLoop w h []) c \<and>
         (\<forall>i. count_list (edgePixels w h) i \<le> 4) \<and>
         map_of (edgeColorCounts d w h) k =
           (if count_list (map (\<lambda>p. colorKeyAt d (p * 4)) (edgePixels w h)) k = 0 then None
            else Some (count_list (map (\<lambda>p. colorKeyAt d (p * 4)) (edgePixels w h)) k))"
proof -
  have w0: "0 < w" using assms(1) by simp
  have le4: "count_list (edgePixels w h) i \<le> 4" for i
    using count_rowLoop_le [of w h i] count_colLoop_le [OF w0, of h i]
    by (simp add: count_edgePixels)
  show ?thesis
    using corner_counts [OF assms] le4 edgeColorCounts_weight [of d w h k]
    by (simp add: count_edgePixels)
qed

theorem corner_sampled_twice_witness:
  "(1::nat) \<le> 3 \<and> (1::nat) \<le> 2 \<and> (5::nat) \<in> set (corners 3 2) \<and>
   count_list (rowLoop 3 2 []) 5 = 1 \<and> count_list (colLoop 3 2 []) 5 = 1 \<and>
   count_list (edgePixels 3 2) 5 = 2 \<and>
   (0::nat) \<in> set (corners 1 1) \<and> count_list (edgePixels 1 1) 0 = 4"
proof -
  have c: "(5::nat) \<in> set (corners 3 2)" "(0::nat) \<in> set (corners 1 1)"
    by (simp_all add: corners_def)
  show ?thesis
    using c corner_sampled_twice [of 3 2 5] corner_sampled_twice [of 1 1 0] by simp
qed

section \<open>Edge detection\<close>

lemma length_edge_px: "length (edge_px d w y x p) = length p"
  by (simp add: edge_px_def Let_def)

lemma edge_px_outside:
  "j < pixelIndex w y x \<or> pixelIndex w y x + 4 \<le> j \<Longrightarrow> edge_px d w y x p ! j = p ! j"
  by (auto simp: edge_px_def Let_def)

lemma edge_px_inside:
  assumes "c < 4" "pixelIndex w y x + c < length p"
  shows "edge_px d w y x p ! (pixelIndex w y x + c) =
           (if c = 3 then 255 else clamp_store (magnitude d w y x))"
proof -
  have "c = 0 \<or> c = 1 \<or> c = 2 \<or> c = 3" using assms(1) by arith
  then show ?thesis using assms(2) by (auto simp: edge_px_def Let_def nth_list_update)
qed

lemma other_pixel_outside:
  assumes "x < w" "x' < w" "(y', x') \<noteq> (y, x)" "c < 4"
  shows "pixelIndex w y x + c < pixelIndex w y' x' \<or> pixelIndex w y' x' + 4 \<le> pixelIndex w y x + c"
proof -
  have "y' * w + x' \<noteq> y * w + x"
    using pixelIndex_inj [of x' w x y' 0 y 0] assms(1,2,3) by (auto simp: pixelIndex_def)
  then show ?thesis using assms(4) unfolding pixelIndex_def by arith
qed

lemma detectEdges_nth:
  assumes v: "valid_image img" and x: "x < width img" and y: "y < height img" and c: "c < 4"
  shows "data (detectEdges img) ! (pixelIndex (width img) y x + c) =
           (if interior (width img) (height img) x y
            then (if c = 3 then 255 else clamp_store (magnitude (data img) (width img) y x))
            else 0)"
proof -
  let ?w = "width img" and ?h = "height img" and ?d = "data img"
  let ?j = "pixelIndex ?w y x + c"
  have len: "length ?d = ?w * ?h * 4" using v by (simp add: valid_image_def)
  have j: "?j < length ?d" using pixelIndex_bound [OF x y c] len by simp
  show ?thesis
  proof (cases "interior ?w ?h x y")
    case True
    have "fold (\<lambda>y. fold (edge_px ?d ?w y) [1..<?w - 1]) [1..<?h - 1] (replicate (length ?d) 0) ! ?j
        = (if c = 3 then 255 else clamp_store (magnitude ?d ?w y x))"
    proof (intro pixel_loop_written [where n = "length ?d" and ?y0.0 = y and ?x0.0 = x])
      show "y \<in> set [1..<?h - 1]" "x \<in> set [1..<?w - 1]"
        using True by (auto simp: interior_def)
      show "length (edge_px ?d ?w y' x' p) = length p" for y' x' p by (rule length_edge_px)
      show "edge_px ?d ?w y x p ! ?j = (if c = 3 then 255 else clamp_store (magnitude ?d ?w y x))"
        if "length p = length ?d" for p
        using c j that by (intro edge_px_inside) simp_all
      show "edge_px ?d ?w y' x' p ! ?j = p ! ?j"
        if "y' \<in> set [1..<?h - 1]" "x' \<in> set [1..<?w - 1]" "(y', x') \<noteq> (y, x)" for y' x' p
      proof -
        have "x' < ?w" using that(2) by auto
        then show ?thesis
          using other_pixel_outside [OF x _ that(3) c] by (intro edge_px_outside) blast
      qed
      show "length (replicate (length ?d) (0 :: byte)) = length ?d" by simp
    qed
    then show ?thesis using True by (simp add: detectEdges_def)
  next
    case False
    have "fold (\<lambda>y. fold (edge_px ?d ?w y) [1..<?w - 1]) [1..<?h - 1] (replicate (length ?d) 0) ! ?j
        = replicate (length ?d) 0 ! ?j"
    proof (intro pixel_loop_untouched)
      fix y' x' p assume a: "y' \<in> set [1..<?h - 1]" "x' \<in> set [1..<?w - 1]"
      then have "x' < ?w" and "(y', x') \<noteq> (y, x)" using False by (auto simp: interior_def)
      then show "edge_px ?d ?w y' x' p ! ?j = p ! ?j"
        using other_pixel_outside [OF x _ _ c] by (intro edge_px_outside) blast
    qed
    then show ?thesis using False j by (simp add: detectEdges_def)
  qed
qed

lemma length_detectEdges: "length (data (detectEdges img)) = length (data img)"
  by (simp add: detectEdges_def pixel_loop_length length_edge_px)

text \<open>
  Claim C5 (the edge detector's output), as the code has it. For every valid image the
  output has the dimensions and the length of the input; every interior pixel has R, G
  and B all equal to the stored Sobel magnitude of the averaged grey values and A = 255;
  every pixel of row or column 0 or max keeps the zeros of the fresh array in all four
  samples, so its gradient value is 0 and its alpha is 0 as well.
\<close>

theorem detectEdges_pixels:
  assumes "valid_image img" "x < width img" "y < height img"
  shows "width (detectEdges img) = width img \<and>
         height (detectEdges img) = height img \<and>
         length (data (detectEdges img)) = length (data img) \<and>
         data (detectEdges img) ! (pixelIndex (width img) y x) =
           (if interior (width img) (height img) x y
            then clamp_store (magnitude (data img) (width img) y x) else 0) \<and>
         data (detectEdges img) ! (pixelIndex (width img) y x + 1) =
           (if interior (width img) (height img) x y
            then clamp_store (magnitude (data img) (width img) y x) else 0) \<and>
         data (detectEdges img) ! (pixelIndex (width img) y x + 2) =
           (if interior (width img) (height img) x y
            then clamp_store (magnitude (data img) (width img) y x) else 0) \<and>
         data (detectEdges img) ! (pixelIndex (width img) y x + 3) =
           (if interior (width img) (height img) x y then 255 else 0)"
proof -
  have "width (detectEdges img) = width img" "height (detectEdges img) = height img"
    by (simp_all add: detectEdges_def)
  moreover note length_detectEdges [of img]
  moreover have "data (detectEdges img) ! (pixelIndex (width img) y x) =
      (if interior (width img) (height img) x y
       then clamp_store (magnitude (data img) (width img) y x) else 0)"
    using detectEdges_nth [OF assms, of 0] by simp
  moreover have "data (detectEdges img) ! (pixelIndex (width img) y x + 1) =
      (if interior (width img) (height img) x y
       then clamp_store (magnitude (data img) (width img) y x) else 0)"
    using detectEdges_nth [OF assms, of 1] by simp
  moreover have "data (detectEdges img) ! (pixelIndex (width img) y x + 2) =
      (if interior (width img) (height img) x y
       then clamp_store (magnitude (data img) (width img) y x) else 0)"
    using detectEdges_nth [OF assms, of 2] by simp
  moreover have "data (detectEdges img) ! (pixelIndex (width img) y x + 3) =
      (if interior (width img) (height img) x y then 255 else 0)"
    using detectEdges_nth [OF assms, of 3] by simp
  ultimately show ?thesis by blast
qed

lemma magnitude_opaque3: "magnitude (data opaque3) (width opaque3) 1 1 = 0"
proof -
  have d: "data opaque3 = [10, 20, 30, 255, 10, 20, 30, 255, 10, 20, 30, 255,
      10, 20, 30, 255, 10, 20, 30, 255, 10, 20, 30, 255,
      10, 20, 30, 255, 10, 20, 30, 255, 10, 20, 30, 255]" by code_simp
  have u: "[0..<9] = [0, 1, 2, 3, 4, 5, 6, 7, 8]" by code_simp
  have w: "width opaque3 = 3" by (simp add: opaque3_def)
  show ?thesis unfolding w
    by (simp add: magnitude_def u d sobel_step_def sobelX_def sobelY_def)
qed

theorem detectEdges_pixels_witness:
  "valid_image opaque3 \<and> 1 < width opaque3 \<and> 1 < height opaque3 \<and>
   interior (width opaque3) (height opaque3) 1 1 \<and>
   data (detectEdges opaque3) ! (pixelIndex (width opaque3) 1 1) = 0 \<and>
   data (detectEdges opaque3) ! (pixelIndex (width opaque3) 1 1 + 1) = 0 \<and>
   data (detectEdges opaque3) ! (pixelIndex (width opaque3) 1 1 + 2) = 0 \<and>
   data (detectEdges opaque3) ! (pixelIndex (width opaque3) 1 1 + 3) = 255"
proof -
  have v: "valid_image opaque3" by code_simp
  have x: "1 < width opaque3" and y: "1 < height opaque3"
    and i: "interior (width opaque3) (height opaque3) 1 1"
    by (simp_all add: opaque3_def interior_def)
  have c: "clamp_store 0 = 0" by (simp add: clamp_store_def)
  show ?thesis
    using v x y i detectEdges_pixels [OF v x y] magnitude_opaque3
    by (simp add: c)
qed

text \<open>
  Not every output pixel has A = 255, as claim C5 words it: the corner pixel of the 3x3
  image comes out with alpha 0.
\<close>

theorem detectEdges_border_alpha_counterexample:
  "data (detectEdges opaque3) ! (pixelIndex (width opaque3) 0 0 + 3) \<noteq> 255"
proof -
  have v: "valid_image opaque3" by code_simp
  have x: "0 < width opaque3" and y: "0 < height opaque3"
    and i: "\<not> interior (width opaque3) (height opaque3) 0 0"
    by (simp_all add: opaque3_def interior_def)
  have "data (detectEdges opaque3) ! (pixelIndex (width opaque3) 0 0 + 3) = 0"
    using detectEdges_nth [OF v x y, of 3] i by simp
  then show ?thesis by simp
qed

section \<open>Edge smoothing\<close>

lemma fold_invariant:
  assumes "\<And>k s. k \<in> set ks \<Longrightarrow> P s \<Longrightarrow> P (f k s)" "P s"
  shows "P (fold f ks s)"
  using assms by (induction ks arbitrary: s) simp_all

lemma fold_establishes:
  assumes "k0 \<in> set ks"
    and "\<And>s. P s \<Longrightarrow> Q (f k0 s)"
    and "\<And>k s. k \<in> set ks \<Longrightarrow> P s \<Longrightarrow> P (f k s)"
    and "\<And>k s. k \<in> set ks \<Longrightarrow> Q s \<Longrightarrow> Q (f k s)"
    and "P s"
  shows "Q (fold f ks s)"
  using assms
proof (induction ks arbitrary: s)
  case Nil
  then show ?case by simp
next
  case (Cons k ks)
  show ?case
  proof (cases "k = k0")
    case True
    have "Q (f k s)" using Cons.prems(2,5) True by simp
    then have "Q (fold f ks (f k s))"
      using Cons.prems(4) by (intro fold_invariant [where P = Q]) simp_all
    then show ?thesis by simp
  next
    case False
    then have "k0 \<in> set ks" using Cons.prems(1) by simp
    moreover have "P (f k s)" using Cons.prems(3,5) by simp
    ultimately have "Q (fold f ks (f k s))"
      using Cons.prems(2,3,4) by (intro Cons.IH) simp_all
    then show ?thesis by simp
  qed
qed

lemma blur_weight_pos: "0 < blur_weight dy dx"
  by (simp add: blur_weight_def Let_def)

lemma offsets_eq: "offsets = [-2, -1, 0, 1, 2]"
  by code_simp

lemma zero_in_offsets: "0 \<in> set offsets"
  by (simp add: offsets_eq)

lemma in_disc_centre: "in_disc 0 0"
  by (simp add: in_disc_def)

lemma set_window_alphas:
  "set (window_alphas d w y x) =
     {blur_alpha d w y x dy dx | dy dx. dy \<in> set offsets \<and> dx \<in> set offsets \<and> in_disc dy dx}"
  by (auto simp: window_alphas_def)

lemma blur_step_between:
  assumes "in_disc dy dx \<Longrightarrow> lo \<le> real_of_int (blur_alpha d w y x dy dx) \<and>
             real_of_int (blur_alpha d w y x dy dx) \<le> hi"
    and "mean_between lo hi acc"
  shows "mean_between lo hi (blur_step d w y x dy dx acc)"
proof (cases "in_disc dy dx")
  case False
  then show ?thesis using assms(2) by (simp add: blur_step_def split: prod.splits)
next
  case True
  obtain a s where acc: "acc = (a, s)" by (cases acc)
  define v where "v = real_of_int (blur_alpha d w y x dy dx)"
  define t where "t = blur_weight dy dx"
  have t: "0 < t" unfolding t_def by (rule blur_weight_pos)
  have v: "lo \<le> v" "v \<le> hi" using assms(1) True by (simp_all add: v_def)
  have s: "0 \<le> s" "lo * s \<le> a" "a \<le> hi * s"
    using assms(2) by (simp_all add: mean_between_def acc)
  have "lo * t \<le> v * t" "v * t \<le> hi * t" using v t by simp_all
  then have "lo * (s + t) \<le> a + v * t" "a + v * t \<le> hi * (s + t)"
    using s by (simp_all add: distrib_left)
  then show ?thesis
    using True s t by (simp add: blur_step_def acc mean_between_def v_def t_def)
qed

lemma blur_step_positive:
  assumes "0 < snd acc \<or> (0 \<le> snd acc \<and> in_disc dy dx)"
  shows "0 < snd (blur_step d w y x dy dx acc)"
  using assms blur_weight_pos [of dy dx]
  by (auto simp: blur_step_def split: prod.splits)

lemma blur_sums_between:
  assumes "\<And>dy dx. dy \<in> set offsets \<Longrightarrow> dx \<in> set offsets \<Longrightarrow> in_disc dy dx \<Longrightarrow>
             lo \<le> real_of_int (blur_alpha d w y x dy dx) \<and>
             real_of_int (blur_alpha d w y x dy dx) \<le> hi"
  shows "mean_between lo hi
           (fold (\<lambda>dy. fold (\<lambda>dx. blur_step d w y x dy dx) offsets) offsets (0, 0))"
proof (rule fold_invariant [where P = "mean_between lo hi"])
  show "mean_between lo hi (0, 0)" by (simp add: mean_between_def)
  fix dy acc assume dy: "dy \<in> set offsets" and acc: "mean_between lo hi acc"
  show "mean_between lo hi (fold (\<lambda>dx. blur_step d w y x dy dx) offsets acc)"
  proof (rule fold_invariant [where P = "mean_between lo hi"])
    show "mean_between lo hi acc" by (rule acc)
    fix dx acc' assume "dx \<in> set offsets" "mean_between lo hi acc'"
    then show "mean_between lo hi (blur_step d w y x dy dx acc')"
      using assms [OF dy] by (intro blur_step_between) simp_all
  qed
qed

lemma blur_weight_sum_pos:
  "0 < snd (fold (\<lambda>dy. fold (\<lambda>dx. blur_step d w y x dy dx) offsets) offsets (0, 0))"
proof (rule fold_establishes [where P = "\<lambda>acc. 0 \<le> snd acc" and Q = "\<lambda>acc. 0 < snd acc"
      and ?k0.0 = 0])
  have keep_nonneg: "0 \<le> snd (blur_step d w y x dy dx acc)" if "0 \<le> snd acc" for dy dx acc
    using that blur_weight_pos [of dy dx] by (auto simp: blur_step_def split: prod.splits)
  have keep_pos: "0 < snd (blur_step d w y x dy dx acc)" if "0 < snd acc" for dy dx acc
    using that by (intro blur_step_positive) simp
  show "(0::int) \<in> set offsets" by (rule zero_in_offsets)
  show "0 < snd (fold (\<lambda>dx. blur_step d w y x 0 dx) offsets acc)" if "0 \<le> snd acc" for acc
  proof (rule fold_establishes [where P = "\<lambda>acc. 0 \<le> snd acc" and Q = "\<lambda>acc. 0 < snd acc"
        and ?k0.0 = 0])
    show "(0::int) \<in> set offsets" by (rule zero_in_offsets)
    show "0 < snd (blur_step d w y x 0 0 s)" if "0 \<le> snd s" for s
      using that in_disc_centre by (intro blur_step_positive) simp
    show "0 \<le> snd (blur_step d w y x 0 dx s)" if "0 \<le> snd s" for dx s
      using that by (rule keep_nonneg)
    show "0 < snd (blur_step d w y x 0 dx s)" if "0 < snd s" for dx s
      using that by (rule keep_pos)
    show "0 \<le> snd acc" by (rule that)
  qed
  show "0 \<le> snd (fold (\<lambda>dx. blur_step d w y x dy dx) offsets acc)" if "0 \<le> snd acc" for dy acc
    using that keep_nonneg by (intro fold_invariant [where P = "\<lambda>acc. 0 \<le> snd acc"]) simp_all
  show "0 < snd (fold (\<lambda>dx. blur_step d w y x dy dx) offsets acc)" if "0 < snd acc" for dy acc
    using that keep_pos by (intro fold_invariant [where P = "\<lambda>acc. 0 < snd acc"]) simp_all
  show "0 \<le> snd ((0, 0) :: real \<times> real)" by simp
qed

lemma round_between:
  assumes "real_of_int lo \<le> v" "v \<le> real_of_int hi"
  shows "lo \<le> round v \<and> round v \<le> hi"
proof -
  have "real_of_int lo \<le> v + 1 / 2" using assms(1) by simp
  then have "lo \<le> \<lfloor>v + 1 / 2\<rfloor>" by (simp add: le_floor_iff)
  moreover have "v + 1 / 2 < real_of_int (hi + 1)" using assms(2) by simp
  then have "\<lfloor>v + 1 / 2\<rfloor> < hi + 1" by (simp only: floor_less_iff)
  ultimately show ?thesis by (simp add: round_def)
qed

lemma blurred_between:
  assumes "\<And>dy dx. dy \<in> set offsets \<Longrightarrow> dx \<in> set offsets \<Longrightarrow> in_disc dy dx \<Longrightarrow>
             lo \<le> blur_alpha d w y x dy dx \<and> blur_alpha d w y x dy dx \<le> hi"
  shows "lo \<le> blurred d w y x \<and> blurred d w y x \<le> hi"
proof -
  obtain a s where f: "fold (\<lambda>dy. fold (\<lambda>dx. blur_step d w y x dy dx) offsets) offsets (0, 0) = (a, s)"
    by (cases "fold (\<lambda>dy. fold (\<lambda>dx. blur_step d w y x dy dx) offsets) offsets (0, 0)")
  have "mean_between (real_of_int lo) (real_of_int hi) (a, s)"
    unfolding f [symmetric] using assms by (intro blur_sums_between) simp
  then have b: "real_of_int lo * s \<le> a" "a \<le> real_of_int hi * s"
    by (simp_all add: mean_between_def)
  have s: "0 < s" using blur_weight_sum_pos [of d w y x] by (simp add: f)
  have "real_of_int lo \<le> a / s" "a / s \<le> real_of_int hi"
    using b s by (simp_all add: pos_le_divide_eq pos_divide_le_eq)
  then show ?thesis
    unfolding blurred_def f by (simp add: round_between)
qed

lemma blurred_in_window:
  "Min (set (window_alphas d w y x)) \<le> blurred d w y x \<and>
   blurred d w y x \<le> Max (set (window_alphas d w y x))"
proof (intro blurred_between)
  fix dy dx assume "dy \<in> set offsets" "dx \<in> set offsets" "in_disc dy dx"
  then have "blur_alpha d w y x dy dx \<in> set (window_alphas d w y x)"
    unfolding set_window_alphas by blast
  then show "Min (set (window_alphas d w y x)) \<le> blur_alpha d w y x dy dx \<and>
      blur_alpha d w y x dy dx \<le> Max (set (window_alphas d w y x))"
    by simp
qed

lemma blurred_byte: "0 \<le> blurred d w y x \<and> blurred d w y x \<le> 255"
proof (intro blurred_between)
  fix dy dx
  have "uint (d ! (nat (((int y + dy) * int w + (int x + dx)) * 4) + 3)) < 2 ^ 8"
    using uint_bounded [of "d ! (nat (((int y + dy) * int w + (int x + dx)) * 4) + 3)"] by simp
  then show "0 \<le> blur_alpha d w y x dy dx \<and> blur_alpha d w y x dy dx \<le> 255"
    by (simp add: blur_alpha_def)
qed

lemma length_refine_px: "length (refine_px d w y x p) = length p"
  by (simp add: refine_px_def)

lemma length_refineEdges: "length (data (refineEdges img)) = length (data img)"
  by (simp add: refineEdges_def Let_def copy_all_loop pixel_loop_length length_refine_px)

lemma valid_refineEdges: "valid_image img \<Longrightarrow> valid_image (refineEdges img)"
  using length_refineEdges [of img] by (simp add: valid_image_def refineEdges_def Let_def)

lemma refineEdges_rgb:
  assumes "j mod 4 \<noteq> 3"
  shows "data (refineEdges img) ! j = data img ! j"
proof -
  have "refine_px d w y x p ! j = p ! j" for d w y x p
  proof -
    have "pixelIndex w y x + 3 \<noteq> j"
      using assms pixelIndex_alpha_mod [of w y x] by auto
    then show ?thesis by (simp add: refine_px_def)
  qed
  then show ?thesis
    unfolding refineEdges_def Let_def copy_all_loop
    by (simp add: pixel_loop_untouched)
qed

lemma refineEdges_alpha:
  assumes v: "valid_image img" and x: "x < width img" and y: "y < height img"
  shows "data (refineEdges img) ! (pixelIndex (width img) y x + 3) =
           (if blur_processed (width img) (height img) x y
            then clamp_store_int (blurred (data img) (width img) y x)
            else data img ! (pixelIndex (width img) y x + 3))"
proof -
  let ?w = "width img" and ?h = "height img" and ?d = "data img"
  let ?j = "pixelIndex ?w y x + 3"
  have len: "length ?d = ?w * ?h * 4" using v by (simp add: valid_image_def)
  have j: "?j < length ?d" using pixelIndex_bound [OF x y, of 3] len by simp
  have other: "refine_px ?d ?w y' x' p ! ?j = p ! ?j" if "x' < ?w" "(y', x') \<noteq> (y, x)" for y' x' p
  proof -
    have "pixelIndex ?w y' x' + 3 \<noteq> ?j"
      using pixelIndex_inj [of x' ?w x y' 3 y 3] x that by auto
    then show ?thesis by (simp add: refine_px_def)
  qed
  show ?thesis
  proof (cases "blur_processed ?w ?h x y")
    case True
    have "fold (\<lambda>y. fold (refine_px ?d ?w y) [blurRadius..<?w - blurRadius])
            [blurRadius..<?h - blurRadius] ?d ! ?j = clamp_store_int (blurred ?d ?w y x)"
    proof (rule pixel_loop_written [where n = "length ?d" and ?y0.0 = y and ?x0.0 = x])
      show "y \<in> set [blurRadius..<?h - blurRadius]" "x \<in> set [blurRadius..<?w - blurRadius]"
        using True by (auto simp: blur_processed_def)
      show "length (refine_px ?d ?w y' x' p) = length p" for y' x' p by (rule length_refine_px)
      show "refine_px ?d ?w y x p ! ?j = clamp_store_int (blurred ?d ?w y x)"
        if "length p = length ?d" for p
        using that j by (simp add: refine_px_def)
      show "refine_px ?d ?w y' x' p ! ?j = p ! ?j"
        if "y' \<in> set [blurRadius..<?h - blurRadius]" "x' \<in> set [blurRadius..<?w - blurRadius]"
          "(y', x') \<noteq> (y, x)" for y' x' p
      proof -
        have "x' < ?w" using that(2) by auto
        then show ?thesis using that(3) by (rule other)
      qed
      show "length ?d = length ?d" by simp
    qed
    then show ?thesis using True by (simp add: refineEdges_def Let_def copy_all_loop)
  next
    case False
    have "fold (\<lambda>y. fold (refine_px ?d ?w y) [blurRadius..<?w - blurRadius])
            [blurRadius..<?h - blurRadius] ?d ! ?j = ?d ! ?j"
    proof (rule pixel_loop_untouched)
      fix y' x' p
      assume "y' \<in> set [blurRadius..<?h - blurRadius]" "x' \<in> set [blurRadius..<?w - blurRadius]"
      then have "x' < ?w" and "(y', x') \<noteq> (y, x)" using False by (auto simp: blur_processed_def)
      then show "refine_px ?d ?w y' x' p ! ?j = p ! ?j" by (rule other)
    qed
    then show ?thesis using False by (simp add: refineEdges_def Let_def copy_all_loop)
  qed
qed

text \<open>
  The code computes the mean in doubles. Any value within 1/2 of the exact mean rounds
  into the same bounds, so the rounding error of the doubles cannot break them.
\<close>

lemma round_near_between:
  assumes "real_of_int lo \<le> v" "v \<le> real_of_int hi" "\<bar>q - v\<bar> < 1 / 2"
  shows "lo \<le> round q \<and> round q \<le> hi"
proof -
  have "real_of_int lo \<le> q + 1 / 2" using assms(1,3) by linarith
  then have "lo \<le> \<lfloor>q + 1 / 2\<rfloor>" by (simp add: le_floor_iff)
  moreover have "q + 1 / 2 < real_of_int hi + 1" using assms(2,3) by linarith
  then have "q + 1 / 2 < real_of_int (hi + 1)" by simp
  then have "\<lfloor>q + 1 / 2\<rfloor> < hi + 1" by (simp only: floor_less_iff)
  ultimately show ?thesis by (simp add: round_def)
qed

lemma blurred_robust:
  assumes "fold (\<lambda>dy. fold (\<lambda>dx. blur_step d w y x dy dx) offsets) offsets (0, 0) = (a, s)"
    and "\<bar>q - a / s\<bar> < 1 / 2"
  shows "Min (set (window_alphas d w y x)) \<le> round q \<and>
         round q \<le> Max (set (window_alphas d w y x))"
proof -
  let ?lo = "Min (set (window_alphas d w y x))" and ?hi = "Max (set (window_alphas d w y x))"
  have "mean_between (real_of_int ?lo) (real_of_int ?hi) (a, s)"
    unfolding assms(1) [symmetric]
  proof (rule blur_sums_between)
    fix dy dx assume "dy \<in> set offsets" "dx \<in> set offsets" "in_disc dy dx"
    then have "blur_alpha d w y x dy dx \<in> set (window_alphas d w y x)"
      unfolding set_window_alphas by blast
    then show "real_of_int ?lo \<le> real_of_int (blur_alpha d w y x dy dx) \<and>
        real_of_int (blur_alpha d w y x dy dx) \<le> real_of_int ?hi"
      by simp
  qed
  then have b: "real_of_int ?lo * s \<le> a" "a \<le> real_of_int ?hi * s"
    by (simp_all add: mean_between_def)
  have s: "0 < s" using blur_weight_sum_pos [of d w y x] by (simp add: assms(1))
  have "real_of_int ?lo \<le> a / s" "a / s \<le> real_of_int ?hi"
    using b s by (simp_all add: pos_le_divide_eq pos_divide_le_eq)
  then show ?thesis using assms(2) by (rule round_near_between)
qed

text \<open>
  Claim C7 (the smoothing creates no new extrema). For every valid image the RGB samples
  of every pixel are unchanged; the alpha of a pixel the blur loop visits lies between
  the least and the greatest input alpha of its circular radius-2 window; and the alpha
  of a pixel within the 2-pixel margin is unchanged.
\<close>

theorem refineEdges_smooth:
  assumes "valid_image img" "x < width img" "y < height img"
  shows "width (refineEdges img) = width img \<and> height (refineEdges img) = height img \<and>
         data (refineEdges img) ! (pixelIndex (width img) y x) =
           data img ! (pixelIndex (width img) y x) \<and>
         data (refineEdges img) ! (pixelIndex (width img) y x + 1) =
           data img ! (pixelIndex (width img) y x + 1) \<and>
         data (refineEdges img) ! (pixelIndex (width img) y x + 2) =
           data img ! (pixelIndex (width img) y x + 2) \<and>
         (if blur_processed (width img) (height img) x y
          then Min (set (window_alphas (data img) (width img) y x))
                 \<le> uint (data (refineEdges img) ! (pixelIndex (width img) y x + 3)) \<and>
               uint (data (refineEdges img) ! (pixelIndex (width img) y x + 3))
                 \<le> Max (set (window_alphas (data img) (width img) y x))
          else data (refineEdges img) ! (pixelIndex (width img) y x + 3) =
                 data img ! (pixelIndex (width img) y x + 3))"
proof -
  let ?w = "width img" and ?d = "data img"
  have rgb: "data (refineEdges img) ! (pixelIndex ?w y x + c) = ?d ! (pixelIndex ?w y x + c)"
    if "c < 3" for c
    using that pixelIndex_mod [of c ?w y x] by (intro refineEdges_rgb) simp
  have "uint (clamp_store_int (blurred ?d ?w y x)) = blurred ?d ?w y x"
    using blurred_byte [of ?d ?w y x] by (simp add: uint_clamp_store_int)
  then have alpha: "if blur_processed ?w (height img) x y
      then Min (set (window_alphas ?d ?w y x)) \<le> uint (data (refineEdges img) ! (pixelIndex ?w y x + 3)) \<and>
           uint (data (refineEdges img) ! (pixelIndex ?w y x + 3)) \<le> Max (set (window_alphas ?d ?w y x))
      else data (refineEdges img) ! (pixelIndex ?w y x + 3) = ?d ! (pixelIndex ?w y x + 3)"
    using blurred_in_window [of ?d ?w y x] by (simp add: refineEdges_alpha [OF assms])
  have dims: "width (refineEdges img) = ?w" "height (refineEdges img) = height img"
    by (simp_all add: refineEdges_def Let_def)
  show ?thesis
    using rgb [of 0] rgb [of 1] rgb [of 2] alpha dims by simp
qed

theorem refineEdges_smooth_witness:
  "valid_image block5 \<and> 2 < width block5 \<and> 2 < height block5 \<and>
   blur_processed (width block5) (height block5) 2 2 \<and>
   \<not> blur_processed (width block5) (height block5) 1 2 \<and>
   Min (set (window_alphas (data block5) (width block5) 2 2))
     \<le> uint (data (refineEdges block5) ! (pixelIndex (width block5) 2 2 + 3)) \<and>
   uint (data (refineEdges block5) ! (pixelIndex (width block5) 2 2 + 3))
     \<le> Max (set (window_alphas (data block5) (width block5) 2 2)) \<and>
   data (refineEdges block5) ! (pixelIndex (width block5) 2 1 + 3) =
     data block5 ! (pixelIndex (width block5) 2 1 + 3)"
proof -
  have v: "valid_image block5" by code_simp
  have x: "2 < width block5" and y: "2 < height block5" and x1: "1 < width block5"
    by (simp_all add: block5_def)
  have p: "blur_processed (width block5) (height block5) 2 2"
    "\<not> blur_processed (width block5) (height block5) 1 2"
    by (simp_all add: block5_def blur_processed_def blurRadius_def)
  show ?thesis
    using v x y p refineEdges_smooth [OF v x y] refineEdges_smooth [OF v x1 y]
    by simp
qed

section \<open>The radial fallback\<close>

lemma length_simple_px: "length (simple_px w h y x p) = length p"
  by (simp add: simple_px_def)

lemma simple_mask_alpha:
  assumes v: "valid_image img" and x: "x < width img" and y: "y < height img"
  shows "data (simple_mask img) ! (pixelIndex (width img) y x + 3) =
           clamp_store (simple_alpha (width img) (height img) x y)"
proof -
  let ?w = "width img" and ?h = "height img" and ?d = "data img"
  let ?j = "pixelIndex ?w y x + 3"
  have len: "length ?d = ?w * ?h * 4" using v by (simp add: valid_image_def)
  have j: "?j < length ?d" using pixelIndex_bound [OF x y, of 3] len by simp
  have "fold (\<lambda>y. fold (simple_px ?w ?h y) [0..<?w]) [0..<?h] ?d ! ?j =
      clamp_store (simple_alpha ?w ?h x y)"
  proof (rule pixel_loop_written [where n = "length ?d" and ?y0.0 = y and ?x0.0 = x])
    show "y \<in> set [0..<?h]" "x \<in> set [0..<?w]" using x y by simp_all
    show "length (simple_px ?w ?h y' x' p) = length p" for y' x' p by (rule length_simple_px)
    show "simple_px ?w ?h y x p ! ?j = clamp_store (simple_alpha ?w ?h x y)"
      if "length p = length ?d" for p
      using that j by (simp add: simple_px_def)
    show "simple_px ?w ?h y' x' p ! ?j = p ! ?j"
      if "y' \<in> set [0..<?h]" "x' \<in> set [0..<?w]" "(y', x') \<noteq> (y, x)" for y' x' p
    proof -
      have "x' < ?w" using that(2) by simp
      then have "pixelIndex ?w y' x' + 3 \<noteq> ?j"
        using pixelIndex_inj [of x' ?w x y' 3 y 3] x that(3) by auto
      then show ?thesis by (simp add: simple_px_def)
    qed
    show "length ?d = length ?d" by simp
  qed
  then show ?thesis by (simp add: simple_mask_def)
qed

lemma sqrt_20000_bounds: "141.42 < sqrt 20000" "sqrt 20000 < 141.43"
proof -
  have "(141.42::real)\<^sup>2 < 20000" by (simp add: power2_eq_square)
  then show "141.42 < sqrt 20000" by (rule real_less_rsqrt)
  have "(20000::real) < 141.43\<^sup>2" by (simp add: power2_eq_square)
  then show "sqrt 20000 < 141.43" by (intro real_less_lsqrt) simp_all
qed

lemma radial_alpha_200_190_100:
  "231.5 < radial_alpha 200 200 190 100" "radial_alpha 200 200 190 100 < 232.5"
proof -
  define m where "m = sqrt 20000"
  have m: "141.42 < m" "m < 141.43" unfolding m_def by (rule sqrt_20000_bounds)+
  have m0: "0 < m" using m(1) by simp
  have n: "90 / m > 0.6"
  proof -
    have "0.6 * m < 90" using m(2) by simp
    then show ?thesis using m0 by (simp add: pos_less_divide_eq)
  qed
  have lo: "90 / m < 0.63641"
  proof -
    have "90 < 0.63641 * m" using m(1) by simp
    then show ?thesis using m0 by (simp add: pos_divide_less_eq)
  qed
  have hi: "0.63635 < 90 / m"
  proof -
    have "0.63635 * m < 90" using m(2) by simp
    then show ?thesis using m0 by (simp add: pos_less_divide_eq)
  qed
  have v: "0 \<le> 255 * (1 - (90 / m - 0.6) / 0.4)" using lo by simp
  have r: "radial_alpha 200 200 190 100 = 255 * (1 - (90 / m - 0.6) / 0.4)"
    using n v unfolding radial_alpha_def Let_def
    by (simp add: m_def [symmetric] max_def)
  show "231.5 < radial_alpha 200 200 190 100" using lo unfolding r by simp
  show "radial_alpha 200 200 190 100 < 232.5" using hi unfolding r by simp
qed

lemma clamp_store_232: "231.5 < v \<Longrightarrow> v < 232.5 \<Longrightarrow> clamp_store v = 232"
proof -
  assume a: "231.5 < v" "v < 232.5"
  show ?thesis
  proof (cases "v < 232")
    case True
    then have "\<lfloor>v\<rfloor> = 231" using a by (intro floor_unique) simp_all
    then show ?thesis using a True by (simp add: clamp_store_def Let_def)
  next
    case False
    then have "\<lfloor>v\<rfloor> = 232" using a by (intro floor_unique) simp_all
    then show ?thesis using a False by (simp add: clamp_store_def Let_def)
  qed
qed

lemma uint_byte_of_int: "0 \<le> k \<Longrightarrow> k \<le> 255 \<Longrightarrow> uint (word_of_int k :: byte) = k"
  by (simp add: uint_word_of_int take_bit_int_eq_self)

lemma clamp_store_le:
  assumes "v \<le> real_of_int n" "0 \<le> n" "n \<le> 255"
  shows "uint (clamp_store v) \<le> n"
proof (cases "v \<le> 0")
  case True
  then show ?thesis using assms(2) by (simp add: clamp_store_def)
next
  case False
  then have pos: "0 < v" by simp
  have lt: "v < 255 \<or> n = 255" using assms(1,3) by linarith
  show ?thesis
  proof (cases "255 \<le> v")
    case True
    then have "n = 255" using lt by simp
    then show ?thesis using True False by (simp add: clamp_store_def)
  next
    case big: False
    define f where "f = \<lfloor>v\<rfloor>"
    have f0: "0 \<le> f" using pos by (simp add: f_def)
    have fv: "real_of_int f \<le> v" "v < real_of_int f + 1" by (simp_all add: f_def)
    have fn: "f \<le> n" using fv(1) assms(1) by linarith
    have f255: "f \<le> 254" using fv(1) big by linarith
    have up: "f + 1 \<le> n" if "1 / 2 \<le> v - real_of_int f"
      using that assms(1) by linarith
    have a: "uint (word_of_int f :: byte) = f" using f0 f255 by (simp add: uint_byte_of_int)
    have b: "uint (word_of_int (f + 1) :: byte) = f + 1"
      using f0 f255 uint_byte_of_int [of "f + 1"] by simp
    show ?thesis
      using False big fn up a b
      by (simp add: clamp_store_def Let_def f_def [symmetric])
  qed
qed

lemma simple_mask_capped:
  assumes "valid_image img" "x < width img" "y < height img"
    "isEdgePixel (width img) (height img) x y"
  shows "uint (data (simple_mask img) ! (pixelIndex (width img) y x + 3)) \<le> 50"
proof -
  have "simple_alpha (width img) (height img) x y \<le> real_of_int 50"
    using assms(4) by (simp add: simple_alpha_def Let_def)
  then have "uint (clamp_store (simple_alpha (width img) (height img) x y)) \<le> 50"
    by (rule clamp_store_le) simp_all
  then show ?thesis by (simp add: simple_mask_alpha [OF assms(1,2,3)])
qed

lemma valid_blank200: "valid_image blank200"
  by (simp add: valid_image_def blank200_def)

lemma simple_mask_centre: "data (simple_mask blank200) ! (pixelIndex 200 100 100 + 3) = 255"
proof -
  have "radial_alpha 200 200 100 100 = 255" by (simp add: radial_alpha_def Let_def)
  moreover have "\<not> isEdgePixel 200 200 100 100" by (simp add: isEdgePixel_def)
  ultimately have "simple_alpha 200 200 100 100 = 255" by (simp add: simple_alpha_def Let_def)
  moreover have "clamp_store 255 = 255" by (simp add: clamp_store_def)
  ultimately show ?thesis
    using simple_mask_alpha [OF valid_blank200, of 100 100] by (simp add: blank200_def)
qed

lemma radial_alpha_corner:
  assumes "0 < w" "0 < h"
  shows "radial_alpha w h 0 0 = 0"
proof -
  define m where "m = sqrt (real w / 2 * (real w / 2) + real h / 2 * (real h / 2))"
  have "0 < real w / 2 * (real w / 2) + real h / 2 * (real h / 2)"
    using assms by (intro add_pos_pos mult_pos_pos) simp_all
  then have m: "0 < m" unfolding m_def by simp
  have d: "sqrt ((real 0 - real w / 2)\<^sup>2 + (real 0 - real h / 2)\<^sup>2) = m"
    by (simp add: m_def power2_eq_square)
  have "m / m = 1" using m by simp
  then show ?thesis
    unfolding radial_alpha_def Let_def d m_def [symmetric] by simp
qed

lemma simple_mask_left_band: "data (simple_mask blank200) ! (pixelIndex 200 100 5 + 3) = 50"
proof -
  define m where "m = sqrt 20000"
  have m: "141.42 < m" "m < 141.43" unfolding m_def by (rule sqrt_20000_bounds)+
  have m0: "0 < m" using m(1) by simp
  have n: "95 / m > 0.6"
  proof -
    have "0.6 * m < 95" using m(2) by simp
    then show ?thesis using m0 by (simp add: pos_less_divide_eq)
  qed
  have lo: "95 / m < 0.68"
  proof -
    have "95 < 0.68 * m" using m(1) by simp
    then show ?thesis using m0 by (simp add: pos_divide_less_eq)
  qed
  have v: "50 \<le> 255 * (1 - (95 / m - 0.6) / 0.4)" using lo by simp
  then have v0: "0 \<le> 255 * (1 - (95 / m - 0.6) / 0.4)" by simp
  have r: "radial_alpha 200 200 5 100 = 255 * (1 - (95 / m - 0.6) / 0.4)"
    using n v0 unfolding radial_alpha_def Let_def
    by (simp add: m_def [symmetric] max_def)
  have "isEdgePixel 200 200 5 100" by (simp add: isEdgePixel_def)
  then have "simple_alpha 200 200 5 100 = 50"
    using v unfolding simple_alpha_def Let_def r by simp
  moreover have "clamp_store 50 = 50" by (simp add: clamp_store_def)
  ultimately show ?thesis
    using simple_mask_alpha [OF valid_blank200, of 5 100] by (simp add: blank200_def)
qed

text \<open>
  Reals and doubles. Where the real value of \<open>simple_alpha\<close> is a tie of the store,
  the doubles of the code can fall to the other side: at pixel (20, 20) of a 200x200
  image the real value is exactly 127.5, stored as 128 (\<open>tie_20_20\<close>), while the
  doubles give a value just below 127.5, stored as 127. The values used for claim C4 are
  not near a tie: at pixel (190, 100) every value within 1/10 of the real one is stored
  as 232 (\<open>right_band_robust\<close>), the centre is exactly 255, and a capped pixel is at
  most 50 whatever the radial value.
\<close>

lemma radial_alpha_200_190_100_tight:
  "231.7 < radial_alpha 200 200 190 100" "radial_alpha 200 200 190 100 < 231.9"
proof -
  define m where "m = sqrt 20000"
  have m: "141.42 < m" "m < 141.43" unfolding m_def by (rule sqrt_20000_bounds)+
  have m0: "0 < m" using m(1) by simp
  have n: "90 / m > 0.6"
  proof -
    have "0.6 * m < 90" using m(2) by simp
    then show ?thesis using m0 by (simp add: pos_less_divide_eq)
  qed
  have lo: "90 / m < 0.63641"
  proof -
    have "90 < 0.63641 * m" using m(1) by simp
    then show ?thesis using m0 by (simp add: pos_divide_less_eq)
  qed
  have hi: "0.63635 < 90 / m"
  proof -
    have "0.63635 * m < 90" using m(2) by simp
    then show ?thesis using m0 by (simp add: pos_less_divide_eq)
  qed
  have v: "0 \<le> 255 * (1 - (90 / m - 0.6) / 0.4)" using lo by simp
  have r: "radial_alpha 200 200 190 100 = 255 * (1 - (90 / m - 0.6) / 0.4)"
    using n v unfolding radial_alpha_def Let_def
    by (simp add: m_def [symmetric] max_def)
  show "231.7 < radial_alpha 200 200 190 100" using lo unfolding r by simp
  show "radial_alpha 200 200 190 100 < 231.9" using hi unfolding r by simp
qed

lemma right_band_robust:
  assumes "\<bar>a - simple_alpha 200 200 190 100\<bar> \<le> 1 / 10"
  shows "clamp_store a = 232"
proof -
  have "\<not> isEdgePixel 200 200 190 100" by (simp add: isEdgePixel_def)
  then have "simple_alpha 200 200 190 100 = radial_alpha 200 200 190 100"
    by (simp add: simple_alpha_def Let_def)
  then have "231.5 < a" "a < 232.5"
    using assms radial_alpha_200_190_100_tight by linarith+
  then show ?thesis by (rule clamp_store_232)
qed

lemma tie_20_20: "radial_alpha 200 200 20 20 = 127.5" "clamp_store (simple_alpha 200 200 20 20) = 128"
proof -
  have "sqrt 12800 / sqrt 20000 = sqrt (12800 / 20000)" by (simp only: real_sqrt_divide)
  also have "\<dots> = sqrt ((8 / 10)\<^sup>2)" by (simp add: power2_eq_square)
  also have "\<dots> = 8 / 10" by (simp only: real_sqrt_abs)
  finally have q: "sqrt 12800 / sqrt 20000 = 8 / 10" .
  show r: "radial_alpha 200 200 20 20 = 127.5"
    unfolding radial_alpha_def Let_def using q by simp
  have "\<not> isEdgePixel 200 200 20 20" by (simp add: isEdgePixel_def)
  then have sa: "simple_alpha 200 200 20 20 = 127.5" using r by (simp add: simple_alpha_def Let_def)
  have "clamp_store (127.5 :: real) = 128" by (simp add: clamp_store_def Let_def)
  then show "clamp_store (simple_alpha 200 200 20 20) = 128" unfolding sa .
qed

text \<open>
  Claim C4 (pixels near an edge are capped at 50). The pixels the code caps are those
  of \<open>isEdgePixel\<close> (\<open>simple_mask_capped\<close>), and the centre of a 200x200 image does
  get alpha 255 and the pixel (5, 100) alpha 50 (\<open>simple_mask_centre\<close>,
  \<open>simple_mask_left_band\<close>). But the test for the right and bottom sides
  is \<^verbatim>\<open>x > img.width - 10\<close>, one column short of the left and top test
  \<^verbatim>\<open>x < 10\<close>: on a 200x200 image the pixel (190, 100) is 9 pixels from the right
  edge and keeps the radial alpha 232, while the pixel (9, 100), 9 pixels from the left
  edge, is capped.
\<close>

theorem simple_mask_right_band:
  "edge_distance 200 200 190 100 = 9 \<and> edge_distance 200 200 9 100 = 9 \<and>
   \<not> isEdgePixel 200 200 190 100 \<and> isEdgePixel 200 200 9 100 \<and>
   data (simple_mask blank200) ! (pixelIndex 200 100 190 + 3) = 232 \<and>
   uint (data (simple_mask blank200) ! (pixelIndex 200 100 9 + 3)) \<le> 50"
proof -
  have e: "\<not> isEdgePixel 200 200 190 100" "isEdgePixel 200 200 9 100"
    by (simp_all add: isEdgePixel_def)
  have "simple_alpha 200 200 190 100 = radial_alpha 200 200 190 100"
    using e(1) by (simp add: simple_alpha_def Let_def)
  then have "clamp_store (simple_alpha 200 200 190 100) = 232"
    using radial_alpha_200_190_100 by (simp add: clamp_store_232)
  then have right: "data (simple_mask blank200) ! (pixelIndex 200 100 190 + 3) = 232"
    using simple_mask_alpha [OF valid_blank200, of 190 100] by (simp add: blank200_def)
  have left: "uint (data (simple_mask blank200) ! (pixelIndex 200 100 9 + 3)) \<le> 50"
    using simple_mask_capped [OF valid_blank200, of 9 100] e(2) by (simp add: blank200_def)
  have "edge_distance 200 200 190 100 = 9" "edge_distance 200 200 9 100 = 9"
    by (simp_all add: edge_distance_def)
  then show ?thesis using e right left by simp
qed

section \<open>The pipeline\<close>

lemma new_ImageData_valid:
  assumes "0 < w" "0 < h" "length d = w * h * 4"
  shows "new_ImageData d w h = Inr \<lparr>data = d, width = w, height = h\<rparr>"
proof -
  have "length d \<noteq> 0" "length d mod 4 = 0" "length d div 4 = w * h"
    using assms by simp_all
  moreover have "(w * h) mod w = 0" "(w * h) div w = h" using assms(1) by simp_all
  ultimately show ?thesis using assms(1) by (simp add: new_ImageData_def)
qed

lemma new_ImageData_Inr:
  assumes "new_ImageData d w h = Inr out"
  shows "out = \<lparr>data = d, width = w, height = h\<rparr> \<and> 0 < w \<and> 0 < h \<and> length d = w * h * 4"
proof -
  define n where "n = length d div 4"
  have c: "length d \<noteq> 0" "length d mod 4 = 0" "w \<noteq> 0" "n mod w = 0" "n div w = h"
    and out: "out = \<lparr>data = d, width = w, height = h\<rparr>"
    using assms unfolding new_ImageData_def n_def by (auto split: if_splits)
  have d: "length d = n * 4" using c(2) unfolding n_def by arith
  have n: "n = w * h" using c(4,5) by (metis mult_div_mod_eq add.right_neutral)
  have "0 < n" using c(1) d by simp
  then have "0 < h" using n by (cases h) simp_all
  then show ?thesis using out c(3) d n by simp
qed

lemma keeps_shape_filters:
  "keeps_shape colorSegmentation" "keeps_shape morphologicalOperations" "keeps_shape refineEdges"
proof -
  show "keeps_shape colorSegmentation"
    by (simp add: keeps_shape_def colorSegmentation_def Let_def seg_loop_length)
  show "keeps_shape morphologicalOperations"
    by (simp add: keeps_shape_def morphologicalOperations_def length_dilation length_erosion)
  show "keeps_shape refineEdges"
    using length_refineEdges by (simp add: keeps_shape_def refineEdges_def Let_def)
qed

lemma constructed_valid:
  assumes "keeps_shape f" "valid_image img"
  shows "constructed f img = Inr (f img)"
proof -
  have "length (data (f img)) = width img * height img * 4"
    and e: "f img = \<lparr>data = data (f img), width = width img, height = height img\<rparr>"
    using assms by (simp_all add: keeps_shape_def valid_image_def)
  then have "constructed f img = Inr \<lparr>data = data (f img), width = width img, height = height img\<rparr>"
    using assms(2) unfolding constructed_def by (intro new_ImageData_valid) (simp_all add: valid_image_def)
  then show ?thesis using e by simp
qed

lemma constructed_Inr:
  assumes "keeps_shape f" "constructed f img = Inr out"
  shows "out = f img \<and> valid_image img"
proof -
  have n: "out = \<lparr>data = data (f img), width = width img, height = height img\<rparr>"
    "0 < width img" "0 < height img" "length (data (f img)) = width img * height img * 4"
    using new_ImageData_Inr [OF assms(2) [unfolded constructed_def]] by simp_all
  have "f img = \<lparr>data = data (f img), width = width img, height = height img\<rparr>"
    "length (data (f img)) = length (data img)"
    using assms(1) by (simp_all add: keeps_shape_def)
  then show ?thesis using n by (simp add: valid_image_def)
qed

lemma getImageData_eq:
  "getImageData c = (if width c = 0 \<or> height c = 0 then Inl IndexSizeError else Inr c)"
  by (rule getImageData_def)

lemma onload_valid:
  assumes "valid_image img"
  shows "onload img wd =
           (Inr (refineEdges (morphologicalOperations (colorSegmentation img))),
            wd\<lparr>canvas := refineEdges (morphologicalOperations (colorSegmentation img))\<rparr>)"
proof -
  have g: "getImageData img = Inr img" using assms by (simp add: getImageData_def valid_image_def)
  have s: "constructed colorSegmentation img = Inr (colorSegmentation img)"
    using keeps_shape_filters(1) assms by (rule constructed_valid)
  have m: "constructed morphologicalOperations (colorSegmentation img) =
      Inr (morphologicalOperations (colorSegmentation img))"
    using keeps_shape_filters(2) valid_colorSegmentation [OF assms] by (rule constructed_valid)
  have r: "constructed refineEdges (morphologicalOperations (colorSegmentation img)) =
      Inr (refineEdges (morphologicalOperations (colorSegmentation img)))"
    using keeps_shape_filters(3)
      valid_morphologicalOperations [OF valid_colorSegmentation [OF assms]]
    by (rule constructed_valid)
  show ?thesis by (simp add: onload_def Let_def g s m r)
qed

lemma onload_empty:
  assumes "width img = 0 \<or> height img = 0"
  shows "onload img wd = (Inl IndexSizeError, wd\<lparr>canvas := img\<rparr>)"
  using assms by (simp add: onload_def Let_def getImageData_def)

lemma onload_Inr:
  assumes "fst (onload img wd) = Inr out"
  shows "valid_image img"
proof -
  have "getImageData img = Inr img"
    using assms by (auto simp: onload_def Let_def getImageData_def split: if_splits)
  then obtain seg where "constructed colorSegmentation img = Inr seg"
    using assms by (auto simp: onload_def Let_def split: sum.splits)
  then show ?thesis using constructed_Inr [OF keeps_shape_filters(1)] by blast
qed

lemma onload_requests: "load_requests (snd (onload img wd)) = load_requests wd"
  by (simp add: onload_def Let_def split: sum.splits)

text \<open>
  Claim C9 (all or nothing). Every call requests exactly one load. When the load fails
  the promise is rejected with \<^verbatim>\<open>Failed to load image\<close> and the canvas is untouched.
  When it delivers a valid buffer, none of the calls that can throw does, and the promise
  is resolved with the buffer that went through the segmenter, the opening and the
  smoothing, a valid buffer of the dimensions of the input, which is also what the canvas
  holds. When it delivers an image of zero width or height, \<^verbatim>\<open>getImageData\<close> throws and
  the promise is rejected. Whenever the promise is resolved, it is with that complete
  result of a valid buffer: there is no other image a call can produce.
\<close>

theorem processImage_all_or_nothing:
  "load_requests (snd (processImage ev wd)) = load_requests wd + 1 \<and>
   (ev = Onerror \<longrightarrow>
      fst (processImage ev wd) = Inl Failed_to_load_image \<and>
      canvas (snd (processImage ev wd)) = canvas wd) \<and>
   (\<forall>img. ev = Onload img \<and> valid_image img \<longrightarrow>
      fst (processImage ev wd) =
        Inr (refineEdges (morphologicalOperations (colorSegmentation img))) \<and>
      canvas (snd (processImage ev wd)) =
        refineEdges (morphologicalOperations (colorSegmentation img)) \<and>
      valid_image (refineEdges (morphologicalOperations (colorSegmentation img))) \<and>
      width (refineEdges (morphologicalOperations (colorSegmentation img))) = width img \<and>
      height (refineEdges (morphologicalOperations (colorSegmentation img))) = height img) \<and>
   (\<forall>img. ev = Onload img \<and> (width img = 0 \<or> height img = 0) \<longrightarrow>
      fst (processImage ev wd) = Inl IndexSizeError) \<and>
   (\<forall>out. fst (processImage ev wd) = Inr out \<longrightarrow>
      (\<exists>img. ev = Onload img \<and> valid_image img \<and>
         out = refineEdges (morphologicalOperations (colorSegmentation img)) \<and>
         canvas (snd (processImage ev wd)) = out))"
proof (cases ev)
  case Onerror
  then show ?thesis by (simp add: processImage_def Let_def)
next
  case (Onload img)
  let ?wd = "wd\<lparr>load_requests := load_requests wd + 1\<rparr>"
  let ?full = "refineEdges (morphologicalOperations (colorSegmentation img))"
  have p: "processImage ev wd = onload img ?wd"
    by (simp add: processImage_def Let_def Onload)
  have once: "load_requests (snd (processImage ev wd)) = load_requests wd + 1"
    by (simp add: p onload_requests)
  have good: "fst (processImage ev wd) = Inr ?full \<and> canvas (snd (processImage ev wd)) = ?full \<and>
      valid_image ?full \<and> width ?full = width img \<and> height ?full = height img"
    if v: "valid_image img"
  proof -
    have "valid_image ?full"
      using v by (intro valid_refineEdges valid_morphologicalOperations valid_colorSegmentation)
    moreover have "width ?full = width img" "height ?full = height img"
      by (simp_all add: refineEdges_def morphologicalOperations_def colorSegmentation_def Let_def)
    ultimately show ?thesis by (simp add: p onload_valid [OF v])
  qed
  have empty: "fst (processImage ev wd) = Inl IndexSizeError" if "width img = 0 \<or> height img = 0"
    using that by (simp add: p onload_empty)
  have only: "valid_image img \<and> out = ?full \<and> canvas (snd (processImage ev wd)) = out"
    if "fst (processImage ev wd) = Inr out" for out
  proof -
    have v: "valid_image img" using that unfolding p by (rule onload_Inr)
    then show ?thesis using that good by simp
  qed
  have c2: "ev = Onerror \<longrightarrow>
      fst (processImage ev wd) = Inl Failed_to_load_image \<and>
      canvas (snd (processImage ev wd)) = canvas wd"
    using Onload by simp
  have c3: "\<forall>img'. ev = Onload img' \<and> valid_image img' \<longrightarrow>
      fst (processImage ev wd) =
        Inr (refineEdges (morphologicalOperations (colorSegmentation img'))) \<and>
      canvas (snd (processImage ev wd)) =
        refineEdges (morphologicalOperations (colorSegmentation img')) \<and>
      valid_image (refineEdges (morphologicalOperations (colorSegmentation img'))) \<and>
      width (refineEdges (morphologicalOperations (colorSegmentation img'))) = width img' \<and>
      height (refineEdges (morphologicalOperations (colorSegmentation img'))) = height img'"
  proof (intro allI impI)
    fix img' assume a: "ev = Onload img' \<and> valid_image img'"
    then have "img' = img" using Onload by simp
    then show "fst (processImage ev wd) =
        Inr (refineEdges (morphologicalOperations (colorSegmentation img'))) \<and>
      canvas (snd (processImage ev wd)) =
        refineEdges (morphologicalOperations (colorSegmentation img')) \<and>
      valid_image (refineEdges (morphologicalOperations (colorSegmentation img'))) \<and>
      width (refineEdges (morphologicalOperations (colorSegmentation img'))) = width img' \<and>
      height (refineEdges (morphologicalOperations (colorSegmentation img'))) = height img'"
      using good a by blast
  qed
  have c4: "\<forall>img'. ev = Onload img' \<and> (width img' = 0 \<or> height img' = 0) \<longrightarrow>
      fst (processImage ev wd) = Inl IndexSizeError"
  proof (intro allI impI)
    fix img' assume a: "ev = Onload img' \<and> (width img' = 0 \<or> height img' = 0)"
    then have "img' = img" using Onload by simp
    then show "fst (processImage ev wd) = Inl IndexSizeError" using empty a by blast
  qed
  have c5: "\<forall>out. fst (processImage ev wd) = Inr out \<longrightarrow>
      (\<exists>img'. ev = Onload img' \<and> valid_image img' \<and>
         out = refineEdges (morphologicalOperations (colorSegmentation img')) \<and>
         canvas (snd (processImage ev wd)) = out)"
    using only Onload by blast
  show ?thesis using once c2 c3 c4 c5 by blast
qed


theorem processImage_all_or_nothing_witness:
  "valid_image block5 \<and>
   fst (processImage (Onload block5) fresh) =
     Inr (refineEdges (morphologicalOperations (colorSegmentation block5))) \<and>
   canvas (snd (processImage (Onload block5) fresh)) =
     refineEdges (morphologicalOperations (colorSegmentation block5)) \<and>
   load_requests (snd (processImage (Onload block5) fresh)) = 1 \<and>
   fst (processImage Onerror fresh) = Inl Failed_to_load_image \<and>
   canvas (snd (processImage Onerror fresh)) = empty_image \<and>
   width empty_image = 0 \<and>
   fst (processImage (Onload empty_image) fresh) = Inl IndexSizeError"
proof -
  have v: "valid_image block5" by code_simp
  have e: "width empty_image = 0" by (simp add: empty_image_def)
  have r: "load_requests fresh = 0" "canvas fresh = empty_image" by (simp_all add: fresh_def)
  have a: "fst (processImage (Onload block5) fresh) =
      Inr (refineEdges (morphologicalOperations (colorSegmentation block5))) \<and>
    canvas (snd (processImage (Onload block5) fresh)) =
      refineEdges (morphologicalOperations (colorSegmentation block5))"
    using v processImage_all_or_nothing [of "Onload block5" fresh] by blast
  have n: "load_requests (snd (processImage (Onload block5) fresh)) = 1"
    using processImage_all_or_nothing [of "Onload block5" fresh] r(1) by simp
  have b: "fst (processImage Onerror fresh) = Inl Failed_to_load_image \<and>
    canvas (snd (processImage Onerror fresh)) = empty_image"
    using processImage_all_or_nothing [of Onerror fresh] r(2) by simp
  have c: "fst (processImage (Onload empty_image) fresh) = Inl IndexSizeError"
    using e processImage_all_or_nothing [of "Onload empty_image" fresh] by blast
  show ?thesis using v e a n b c by blast
qed

end
